theory Spec2Isabelle
  imports Main "HOL-Library.Signed_Division"
begin

section \<open>Data model\<close>

text \<open>
  The repository keeps every digest as a lowercase hexadecimal string
  (\<^verbatim>\<open>type MerkleNodeValue = string\<close>).  The hash primitive is the external
  library call \<^verbatim>\<open>shajs("sha256").update(l + r, "hex").digest("hex")\<close>; it is not
  code of the repository, so every operation below takes it as the parameter \<open>H\<close>.

  TypeScript's \<^verbatim>\<open>number\<close> is used for heights, levels and leaf indices only.
  Heights and levels are modelled as \<open>nat\<close>, indices as \<open>int\<close> (the append-only tree
  starts at index \<open>-1\<close>).  \<^verbatim>\<open>Math.floor(a / b)\<close> for integral \<open>a\<close> and positive \<open>b\<close> is
  \<open>a div b\<close> on \<open>int\<close> (rounding towards minus infinity), and \<^verbatim>\<open>a % 2\<close> is the
  truncating remainder \<open>a smod 2\<close>.  The arithmetic is the exact integer arithmetic;
  this agrees with the IEEE doubles of the source as long as every index is below
  \<open>2 ^ 53\<close>, where \<^verbatim>\<open>index + 1\<close> and \<^verbatim>\<open>index - 1\<close> are exact.
\<close>

type_synonym MerkleNodeValue = string

type_synonym hashfn = "MerkleNodeValue \<Rightarrow> MerkleNodeValue \<Rightarrow> MerkleNodeValue"

text \<open>
  \<^verbatim>\<open>interface IMerkleProof { root; siblings; index; value }\<close>.  The field \<^verbatim>\<open>value\<close> is
  \<open>leafValue\<close> here, since \<open>value\<close> is a reserved word of Isabelle.
\<close>

record IMerkleProof =
  root :: MerkleNodeValue
  siblings :: "MerkleNodeValue list"
  index :: int
  leafValue :: MerkleNodeValue

text \<open>
  \<^verbatim>\<open>interface IDeltaMerkleProof { index; siblings; oldRoot; oldValue; newRoot; newValue }\<close>.
  Two records of one theory cannot share a field name, so \<^verbatim>\<open>index\<close> and \<^verbatim>\<open>siblings\<close> are
  \<open>deltaIndex\<close> and \<open>deltaSiblings\<close> here; for the same reason the fields \<^verbatim>\<open>height\<close> and
  \<^verbatim>\<open>zeroHashes\<close> of the three classes below carry the name of their class.
\<close>

record IDeltaMerkleProof =
  deltaIndex :: int
  deltaSiblings :: "MerkleNodeValue list"
  oldRoot :: MerkleNodeValue
  oldValue :: MerkleNodeValue
  newRoot :: MerkleNodeValue
  newValue :: MerkleNodeValue

text \<open>The all-zero digest: the literal of 64 zeros that the source writes out.\<close>

definition zeroDigest :: MerkleNodeValue where
  "zeroDigest = ''0000000000000000000000000000000000000000000000000000000000000000''"

section \<open>Zero hashes\<close>

text \<open>
  \<^verbatim>\<open>for (let i = 1; i <= height; i++) { cur = hash(cur, cur); zeroHashes.push(cur) }\<close>
\<close>

function zeroHashesLoop ::
  "hashfn \<Rightarrow> nat \<Rightarrow> nat \<Rightarrow> MerkleNodeValue \<Rightarrow> MerkleNodeValue list \<Rightarrow> MerkleNodeValue list" where
  "zeroHashesLoop H height i currentZeroHash zeroHashes =
     (if i \<le> height
      then (let next = H currentZeroHash currentZeroHash
            in zeroHashesLoop H height (i + 1) next (zeroHashes @ [next]))
      else zeroHashes)"
  by pat_completeness auto
termination
  by (relation "measure (\<lambda>(H, height, i, c, zs). Suc height - i)") auto

declare zeroHashesLoop.simps [simp del]

definition computeZeroHashes :: "hashfn \<Rightarrow> nat \<Rightarrow> MerkleNodeValue list" where
  "computeZeroHashes H height = zeroHashesLoop H height 1 zeroDigest [zeroDigest]"

section \<open>Proof folding and verification\<close>

text \<open>
  \<^verbatim>\<open>computeMerkleRootFromProof\<close>: the loop over \<^verbatim>\<open>i = 0 .. siblings.length - 1\<close>,
  with the running node value and node index.  Both source files hold the same text of
  this function.
\<close>

function merkleRootLoop ::
  "hashfn \<Rightarrow> MerkleNodeValue list \<Rightarrow> nat \<Rightarrow> int \<Rightarrow> MerkleNodeValue \<Rightarrow> MerkleNodeValue" where
  "merkleRootLoop H sibs i merklePathNodeIndex merklePathNodeValue =
     (if i < length sibs
      then (let merklePathNodeSibling = sibs ! i
            in merkleRootLoop H sibs (i + 1) (merklePathNodeIndex div 2)
                 (if merklePathNodeIndex smod 2 = 0
                  then H merklePathNodeValue merklePathNodeSibling
                  else H merklePathNodeSibling merklePathNodeValue))
      else merklePathNodeValue)"
  by pat_completeness auto
termination
  by (relation "measure (\<lambda>(H, sibs, i, idx, v). length sibs - i)") auto

declare merkleRootLoop.simps [simp del]

definition computeMerkleRootFromProof ::
  "hashfn \<Rightarrow> MerkleNodeValue list \<Rightarrow> int \<Rightarrow> MerkleNodeValue \<Rightarrow> MerkleNodeValue" where
  "computeMerkleRootFromProof H sibs idx v = merkleRootLoop H sibs 0 idx v"

text \<open>
  \<^verbatim>\<open>computeMerklePathFromProof\<close>: the same loop, which also pushes every node value
  it computes; the path starts as \<^verbatim>\<open>[value]\<close>.
\<close>

function merklePathLoop ::
  "hashfn \<Rightarrow> MerkleNodeValue list \<Rightarrow> nat \<Rightarrow> int \<Rightarrow> MerkleNodeValue \<Rightarrow> MerkleNodeValue list
     \<Rightarrow> MerkleNodeValue list" where
  "merklePathLoop H sibs i merklePathNodeIndex merklePathNodeValue merklePath =
     (if i < length sibs
      then (let merklePathNodeSibling = sibs ! i;
                next = (if merklePathNodeIndex smod 2 = 0
                        then H merklePathNodeValue merklePathNodeSibling
                        else H merklePathNodeSibling merklePathNodeValue)
            in merklePathLoop H sibs (i + 1) (merklePathNodeIndex div 2) next (merklePath @ [next]))
      else merklePath)"
  by pat_completeness auto
termination
  by (relation "measure (\<lambda>(H, sibs, i, idx, v, p). length sibs - i)") auto

declare merklePathLoop.simps [simp del]

definition computeMerklePathFromProof ::
  "hashfn \<Rightarrow> MerkleNodeValue list \<Rightarrow> int \<Rightarrow> MerkleNodeValue \<Rightarrow> MerkleNodeValue list" where
  "computeMerklePathFromProof H sibs idx v = merklePathLoop H sibs 0 idx v [v]"

definition verifyMerkleProof :: "hashfn \<Rightarrow> IMerkleProof \<Rightarrow> bool" where
  "verifyMerkleProof H proof =
     (root proof = computeMerkleRootFromProof H (siblings proof) (index proof) (leafValue proof))"

definition verifyDeltaMerkleProof :: "hashfn \<Rightarrow> IDeltaMerkleProof \<Rightarrow> bool" where
  "verifyDeltaMerkleProof H deltaMerkleProof =
     (let oldProof = \<lparr> root = oldRoot deltaMerkleProof,
                        siblings = deltaSiblings deltaMerkleProof,
                        index = deltaIndex deltaMerkleProof,
                        leafValue = oldValue deltaMerkleProof \<rparr>;
          newProof = \<lparr> root = newRoot deltaMerkleProof,
                        siblings = deltaSiblings deltaMerkleProof,
                        index = deltaIndex deltaMerkleProof,
                        leafValue = newValue deltaMerkleProof \<rparr>
      in verifyMerkleProof H oldProof \<and> verifyMerkleProof H newProof)"

section \<open>The sparse node store and the sparse tree\<close>

text \<open>
  \<^verbatim>\<open>class NodeStore { nodes: {[id: string]: MerkleNodeValue}; height; zeroHashes }\<close>.
  The dictionary key is the string \<^verbatim>\<open>level + "_" + index\<close>.  JavaScript renders an
  integral number below \<open>10 ^ 21\<close> as its decimal digits, with a leading minus sign when
  it is negative; \<open>showNat\<close> and \<open>showInt\<close> are that rendering, and \<open>nodeKey\<close> is the key.
\<close>

definition digitChar :: "nat \<Rightarrow> char" where
  "digitChar d = ''0123456789'' ! d"

fun showNat :: "nat \<Rightarrow> string" where
  "showNat n = (if n < 10 then [digitChar n] else showNat (n div 10) @ [digitChar (n mod 10)])"

declare showNat.simps [simp del]

definition showInt :: "int \<Rightarrow> string" where
  "showInt i = (if i < 0 then CHR ''-'' # showNat (nat (- i)) else showNat (nat i))"

definition nodeKey :: "nat \<Rightarrow> int \<Rightarrow> string" where
  "nodeKey level idx = showNat level @ CHR ''_'' # showInt idx"

record NodeStore =
  nodes :: "string \<rightharpoonup> MerkleNodeValue"
  storeHeight :: nat
  storeZeroHashes :: "MerkleNodeValue list"

definition newNodeStore :: "hashfn \<Rightarrow> nat \<Rightarrow> NodeStore" where
  "newNodeStore H height =
     \<lparr> nodes = Map.empty, storeHeight = height, storeZeroHashes = computeZeroHashes H height \<rparr>"

definition contains :: "NodeStore \<Rightarrow> nat \<Rightarrow> int \<Rightarrow> bool" where
  "contains s level idx = (nodes s (nodeKey level idx) \<noteq> None)"

text \<open>\<^verbatim>\<open>set(level, index, value)\<close>; the name \<open>set\<close> is taken in HOL.\<close>

definition setNode :: "NodeStore \<Rightarrow> nat \<Rightarrow> int \<Rightarrow> MerkleNodeValue \<Rightarrow> NodeStore" where
  "setNode s level idx v = s \<lparr> nodes := (nodes s)(nodeKey level idx \<mapsto> v) \<rparr>"

text \<open>
  \<^verbatim>\<open>get(level, index)\<close>: the stored value when the key is present, else
  \<^verbatim>\<open>this.zeroHashes[this.height - level]\<close>.  The tree only asks for the levels
  \<open>0 .. height\<close>, where the read is inside the table of \<open>height + 1\<close> zero hashes.  For a
  level above the height the source would read the table at a negative index and obtain
  JavaScript's \<^verbatim>\<open>undefined\<close>; the model leaves that value unspecified.
\<close>

definition get :: "NodeStore \<Rightarrow> nat \<Rightarrow> int \<Rightarrow> MerkleNodeValue" where
  "get s level idx =
     (if contains s level idx then the (nodes s (nodeKey level idx))
      else if level \<le> storeHeight s then storeZeroHashes s ! (storeHeight s - level)
      else undefined)"

text \<open>\<^verbatim>\<open>class ZeroMerkleTree { height; nodeStore }\<close>\<close>

record ZeroMerkleTree =
  treeHeight :: nat
  nodeStore :: NodeStore

definition newZeroMerkleTree :: "hashfn \<Rightarrow> nat \<Rightarrow> ZeroMerkleTree" where
  "newZeroMerkleTree H height = \<lparr> treeHeight = height, nodeStore = newNodeStore H height \<rparr>"

text \<open>
  The loop of \<^verbatim>\<open>setLeaf\<close>, \<^verbatim>\<open>for (let level = this.height; level > 0; level--)\<close>:
  it writes the current node, reads the sibling from the store after that write, hashes,
  pushes the sibling and halves the index.
\<close>

fun setLeafLoop ::
  "hashfn \<Rightarrow> nat \<Rightarrow> NodeStore \<Rightarrow> int \<Rightarrow> MerkleNodeValue \<Rightarrow> MerkleNodeValue list
     \<Rightarrow> NodeStore \<times> MerkleNodeValue \<times> MerkleNodeValue list" where
  "setLeafLoop H 0 s currentIndex currentValue sibs = (s, currentValue, sibs)"
| "setLeafLoop H (Suc l) s currentIndex currentValue sibs =
     (let level = Suc l;
          s1 = setNode s level currentIndex currentValue
      in if currentIndex smod 2 = 0
         then (let rightSibling = get s1 level (currentIndex + 1)
               in setLeafLoop H l s1 (currentIndex div 2) (H currentValue rightSibling)
                    (sibs @ [rightSibling]))
         else (let leftSibling = get s1 level (currentIndex - 1)
               in setLeafLoop H l s1 (currentIndex div 2) (H leftSibling currentValue)
                    (sibs @ [leftSibling])))"

definition setLeaf ::
  "hashfn \<Rightarrow> ZeroMerkleTree \<Rightarrow> int \<Rightarrow> MerkleNodeValue \<Rightarrow> IDeltaMerkleProof \<times> ZeroMerkleTree" where
  "setLeaf H t idx v =
     (let oldR = get (nodeStore t) 0 0;
          oldV = get (nodeStore t) (treeHeight t) idx;
          (s, currentValue, sibs) = setLeafLoop H (treeHeight t) (nodeStore t) idx v [];
          s' = setNode s 0 0 currentValue
      in (\<lparr> deltaIndex = idx, deltaSiblings = sibs, oldRoot = oldR, oldValue = oldV,
             newRoot = currentValue, newValue = v \<rparr>,
          t \<lparr> nodeStore := s' \<rparr>))"

definition getRoot :: "ZeroMerkleTree \<Rightarrow> MerkleNodeValue" where
  "getRoot t = get (nodeStore t) 0 0"

section \<open>The append-only tree\<close>

text \<open>\<^verbatim>\<open>class AppendOnlyMerkleTree { height; lastProof; zeroHashes }\<close>\<close>

record AppendOnlyMerkleTree =
  appendHeight :: nat
  lastProof :: IMerkleProof
  appendZeroHashes :: "MerkleNodeValue list"

definition newAppendOnlyMerkleTree :: "hashfn \<Rightarrow> nat \<Rightarrow> AppendOnlyMerkleTree" where
  "newAppendOnlyMerkleTree H height =
     (let zs = computeZeroHashes H height
      in \<lparr> appendHeight = height,
           lastProof = \<lparr> root = zs ! height, siblings = take height zs, index = - 1,
                         leafValue = zs ! height \<rparr>,
           appendZeroHashes = zs \<rparr>)"

text \<open>
  The sibling loop of \<^verbatim>\<open>appendLeaf\<close>,
  \<^verbatim>\<open>for (let level = 0; level < this.height; level++)\<close>, with \<^verbatim>\<open>multiplier\<close> doubled at
  the end of every round.  In a tree made by the constructor and \<^verbatim>\<open>appendLeaf\<close> the old
  siblings have \<open>height\<close> entries and the zero hashes and the old path \<open>height + 1\<close>, so
  every read of the loop is inside its array.
\<close>

function appendLoop ::
  "nat \<Rightarrow> MerkleNodeValue list \<Rightarrow> MerkleNodeValue list \<Rightarrow> MerkleNodeValue list \<Rightarrow> int \<Rightarrow> int
     \<Rightarrow> nat \<Rightarrow> int \<Rightarrow> MerkleNodeValue list \<Rightarrow> MerkleNodeValue list" where
  "appendLoop height zs oldSiblings oldMerklePath prevIndex newIndex level multiplier sibs =
     (if level < height
      then (let prevLevelIndex = prevIndex div multiplier;
                newLevelIndex = newIndex div multiplier;
                sibling = (if newLevelIndex = prevLevelIndex then oldSiblings ! level
                           else if newLevelIndex smod 2 = 0 then zs ! level
                           else oldMerklePath ! level)
            in appendLoop height zs oldSiblings oldMerklePath prevIndex newIndex
                 (level + 1) (multiplier * 2) (sibs @ [sibling]))
      else sibs)"
  by pat_completeness auto
termination
  by (relation "measure (\<lambda>(height, zs, os, op, p, n, level, m, sibs). height - level)") auto

declare appendLoop.simps [simp del]

definition appendLeaf ::
  "hashfn \<Rightarrow> AppendOnlyMerkleTree \<Rightarrow> MerkleNodeValue \<Rightarrow> IDeltaMerkleProof \<times> AppendOnlyMerkleTree" where
  "appendLeaf H t v =
     (let oldMerklePath =
            computeMerklePathFromProof H (siblings (lastProof t)) (index (lastProof t))
              (leafValue (lastProof t));
          oldR = root (lastProof t);
          oldV = zeroDigest;
          prevIndex = index (lastProof t);
          newIndex = prevIndex + 1;
          oldSiblings = siblings (lastProof t);
          sibs = appendLoop (appendHeight t) (appendZeroHashes t) oldSiblings oldMerklePath
                   prevIndex newIndex 0 1 [];
          newR = computeMerkleRootFromProof H sibs newIndex v;
          t' = t \<lparr> lastProof := \<lparr> root = newR, siblings = sibs, index = newIndex, leafValue = v \<rparr> \<rparr>
      in (\<lparr> deltaIndex = index (lastProof t'), deltaSiblings = sibs, oldRoot = oldR,
             oldValue = oldV, newRoot = newR, newValue = v \<rparr>,
          t'))"

section \<open>Sequences of calls\<close>

text \<open>
  A run of \<^verbatim>\<open>setLeaf\<close> calls on one tree (the examples do
  \<^verbatim>\<open>leavesToSet.map((leaf, index) => tree.setLeaf(index, leaf))\<close>), collecting the
  returned delta proofs in call order, and the same for \<^verbatim>\<open>appendLeaf\<close>.
\<close>

fun setLeaves ::
  "hashfn \<Rightarrow> ZeroMerkleTree \<Rightarrow> (int \<times> MerkleNodeValue) list
     \<Rightarrow> IDeltaMerkleProof list \<times> ZeroMerkleTree" where
  "setLeaves H t [] = ([], t)"
| "setLeaves H t ((idx, v) # calls) =
     (let (p, t1) = setLeaf H t idx v;
          (ps, t2) = setLeaves H t1 calls
      in (p # ps, t2))"

fun appendLeaves ::
  "hashfn \<Rightarrow> AppendOnlyMerkleTree \<Rightarrow> MerkleNodeValue list
     \<Rightarrow> IDeltaMerkleProof list \<times> AppendOnlyMerkleTree" where
  "appendLeaves H t [] = ([], t)"
| "appendLeaves H t (v # vs) =
     (let (p, t1) = appendLeaf H t v;
          (ps, t2) = appendLeaves H t1 vs
      in (p # ps, t2))"

section \<open>Concrete inputs\<close>

text \<open>
  The eight leaves that \<^verbatim>\<open>example4\<close> sets at the indices \<open>0 .. 7\<close> of a tree of height
  \<open>3\<close>, the calls it makes, and the first leaf that \<^verbatim>\<open>example7\<close> appends.
\<close>

definition example4Leaves :: "MerkleNodeValue list" where
  "example4Leaves =
     [''0000000000000000000000000000000000000000000000000000000000000001'',
      ''0000000000000000000000000000000000000000000000000000000000000003'',
      ''0000000000000000000000000000000000000000000000000000000000000003'',
      ''0000000000000000000000000000000000000000000000000000000000000007'',
      ''0000000000000000000000000000000000000000000000000000000000000004'',
      ''0000000000000000000000000000000000000000000000000000000000000002'',
      ''0000000000000000000000000000000000000000000000000000000000000000'',
      ''0000000000000000000000000000000000000000000000000000000000000006'']"


definition example7Leaf :: MerkleNodeValue where
  "example7Leaf = ''0000000000000000000000000000000000000000000000000000000000000008''"

text \<open>
  A concrete stand-in for the hash, used only to evaluate the operations on concrete
  inputs: it writes every character of the left argument after a \<open>1\<close>, then a \<open>0\<close>, then
  the right argument, all behind the letter \<open>h\<close>.  It has no collisions and never
  returns the all-zero digest.
\<close>

fun sampleEncode :: "string \<Rightarrow> string \<Rightarrow> string" where
  "sampleEncode [] r = CHR ''0'' # r"
| "sampleEncode (c # l) r = CHR ''1'' # c # sampleEncode l r"

definition sampleHash :: hashfn where
  "sampleHash l r = CHR ''h'' # sampleEncode l r"

section \<open>Reference semantics\<close>

text \<open>
  The functions of this section are not code of the repository.  They describe the tree
  that the two implementations are meant to maintain, and the loops of the source in
  structurally recursive form; the lemmas below relate every one of them to the source
  functions above.

  The sibling of the node with index \<open>i\<close> on its level.
\<close>

definition sib :: "int \<Rightarrow> int" where
  "sib i = (if even i then i + 1 else i - 1)"

text \<open>The left/right fold of a value along a list of siblings, by recursion on the list.\<close>

fun foldPath :: "hashfn \<Rightarrow> MerkleNodeValue list \<Rightarrow> int \<Rightarrow> MerkleNodeValue \<Rightarrow> MerkleNodeValue" where
  "foldPath H [] idx v = v"
| "foldPath H (s # ss) idx v = foldPath H ss (idx div 2) (if even idx then H v s else H s v)"

text \<open>The same fold that keeps every intermediate node value, the leaf first.\<close>

fun pathNodes :: "hashfn \<Rightarrow> MerkleNodeValue list \<Rightarrow> int \<Rightarrow> MerkleNodeValue \<Rightarrow> MerkleNodeValue list" where
  "pathNodes H [] idx v = [v]"
| "pathNodes H (s # ss) idx v = v # pathNodes H ss (idx div 2) (if even idx then H v s else H s v)"

text \<open>The root of an all-empty subtree of height \<open>n\<close>.\<close>

fun zeroAt :: "hashfn \<Rightarrow> nat \<Rightarrow> MerkleNodeValue" where
  "zeroAt H 0 = zeroDigest"
| "zeroAt H (Suc n) = H (zeroAt H n) (zeroAt H n)"

text \<open>
  The complete binary tree over a leaf assignment \<open>lv\<close>: \<open>nodeAt H lv L i\<close> is the value of the
  node \<open>L\<close> levels above the leaves with index \<open>i\<close> on its level, and
  \<open>treeSiblings H lv a j n\<close> lists the \<open>n\<close> siblings met on the way up from the node
  \<open>j\<close> that is \<open>a\<close> levels above the leaves.
\<close>

fun nodeAt :: "hashfn \<Rightarrow> (int \<Rightarrow> MerkleNodeValue) \<Rightarrow> nat \<Rightarrow> int \<Rightarrow> MerkleNodeValue" where
  "nodeAt H lv 0 i = lv i"
| "nodeAt H lv (Suc L) i = H (nodeAt H lv L (2 * i)) (nodeAt H lv L (2 * i + 1))"

fun treeSiblings ::
  "hashfn \<Rightarrow> (int \<Rightarrow> MerkleNodeValue) \<Rightarrow> nat \<Rightarrow> int \<Rightarrow> nat \<Rightarrow> MerkleNodeValue list" where
  "treeSiblings H lv a j 0 = []"
| "treeSiblings H lv a j (Suc n) = nodeAt H lv a (sib j) # treeSiblings H lv (Suc a) (j div 2) n"

text \<open>
  The siblings that \<^verbatim>\<open>setLeaf\<close> reads when it climbs from level \<open>l\<close> to level \<open>1\<close> of a
  store with lookup function \<open>g\<close>.
\<close>

fun storeSiblings :: "(nat \<Rightarrow> int \<Rightarrow> MerkleNodeValue) \<Rightarrow> nat \<Rightarrow> int \<Rightarrow> MerkleNodeValue list" where
  "storeSiblings g 0 idx = []"
| "storeSiblings g (Suc l) idx = g (Suc l) (sib idx) # storeSiblings g l (idx div 2)"

text \<open>
  A sparse tree agrees with a leaf assignment when every lookup on the levels
  \<open>0 .. height\<close> returns the node of the complete tree over that assignment.
\<close>

definition storeAgrees :: "hashfn \<Rightarrow> ZeroMerkleTree \<Rightarrow> (int \<Rightarrow> MerkleNodeValue) \<Rightarrow> bool" where
  "storeAgrees H t lv =
     (storeHeight (nodeStore t) = treeHeight t \<and>
      (\<forall>lev j. lev \<le> treeHeight t \<longrightarrow>
          get (nodeStore t) lev j = nodeAt H lv (treeHeight t - lev) j))"

text \<open>Consecutive delta proofs chain: each old root is the root reached before.\<close>

fun chained :: "MerkleNodeValue \<Rightarrow> IDeltaMerkleProof list \<Rightarrow> bool" where
  "chained r [] = True"
| "chained r (p # ps) = (oldRoot p = r \<and> chained (newRoot p) ps)"

text \<open>The leaf assignment after a run of \<^verbatim>\<open>setLeaf\<close> calls.\<close>

fun applyCalls :: "(int \<Rightarrow> MerkleNodeValue) \<Rightarrow> (int \<times> MerkleNodeValue) list \<Rightarrow> int \<Rightarrow> MerkleNodeValue" where
  "applyCalls lv [] = lv"
| "applyCalls lv ((idx, v) # calls) = applyCalls (lv(idx := v)) calls"

text \<open>
  The leaf assignment of an append-only tree that holds the leaves \<open>vs\<close>: empty beyond
  them.  An append-only tree agrees with \<open>vs\<close> when its last proof is the authentication
  path of the last leaf of \<open>vs\<close> in the complete tree.
\<close>

definition leavesOf :: "MerkleNodeValue list \<Rightarrow> int \<Rightarrow> MerkleNodeValue" where
  "leavesOf vs i = (if 0 \<le> i \<and> i < int (length vs) then vs ! nat i else zeroDigest)"

definition appendAgrees :: "hashfn \<Rightarrow> nat \<Rightarrow> MerkleNodeValue list \<Rightarrow> AppendOnlyMerkleTree \<Rightarrow> bool" where
  "appendAgrees H h vs t =
     (appendHeight t = h \<and> appendZeroHashes t = computeZeroHashes H h \<and>
      index (lastProof t) = int (length vs) - 1 \<and>
      length (siblings (lastProof t)) = h \<and>
      root (lastProof t) = nodeAt H (leavesOf vs) h 0 \<and>
      (vs \<noteq> [] \<longrightarrow> leafValue (lastProof t) = last vs \<and>
         siblings (lastProof t) = treeSiblings H (leavesOf vs) 0 (int (length vs) - 1) h))"

text \<open>The sibling that one round of the loop of \<^verbatim>\<open>appendLeaf\<close> pushes for level \<open>L\<close>.\<close>

definition pickSibling ::
  "MerkleNodeValue list \<Rightarrow> MerkleNodeValue list \<Rightarrow> MerkleNodeValue list \<Rightarrow> int \<Rightarrow> int \<Rightarrow> nat
     \<Rightarrow> MerkleNodeValue" where
  "pickSibling zs oldSiblings oldMerklePath prevIndex newIndex L =
     (if newIndex div 2 ^ L = prevIndex div 2 ^ L then oldSiblings ! L
      else if even (newIndex div 2 ^ L) then zs ! L
      else oldMerklePath ! L)"

section \<open>Arithmetic of indices\<close>

text \<open>
  The evenness test of the source, halving, and the position of an index and of its
  predecessor under division by a power of two.
\<close>

lemma smod_two_iff_even: "((i::int) smod 2 = 0) = even i"
  by (simp add: signed_modulo_int_def sgn_if even_iff_mod_2_eq_zero[symmetric])

lemma div_pow_Suc: "(x::int) div (2 * 2 ^ L) = x div 2 ^ L div 2"
proof -
  have "x div (2 ^ L * 2) = x div 2 ^ L div 2"
    by (rule zdiv_zmult2_eq) simp
  then show ?thesis by (simp add: mult.commute)
qed

lemma div_pow_Suc': "(x::int) div (2 * 2 ^ L) = x div 2 div 2 ^ L"
  by (simp add: zdiv_zmult2_eq)

lemma div_pow_in_range: "0 \<le> (idx::int) \<Longrightarrow> idx < 2 ^ h \<Longrightarrow> idx div 2 ^ h = 0"
  by (simp add: div_pos_pos_trivial)

lemma pred_div_cases:
  fixes k m :: int
  assumes "0 < m"
  shows "(k - 1) div m = k div m \<or> (k - 1) div m = k div m - 1"
proof (cases "k mod m = 0")
  case True
  have e: "m * (k div m) + k mod m = k" by (rule mult_div_mod_eq)
  have "k - 1 = m * (k div m - 1) + (m - 1)"
    using True e by (simp add: algebra_simps)
  moreover have "0 \<le> m - 1" "m - 1 < m" using assms by simp_all
  ultimately have "(k - 1) div m = k div m - 1"
    by (rule int_div_pos_eq)
  then show ?thesis ..
next
  case False
  have e: "m * (k div m) + k mod m = k" by (rule mult_div_mod_eq)
  have "k - 1 = m * (k div m) + (k mod m - 1)"
    using e by linarith
  moreover have "0 \<le> k mod m - 1"
    using False assms pos_mod_sign[of m k] by linarith
  moreover have "k mod m - 1 < m"
    using assms pos_mod_bound[of m k] by linarith
  ultimately have "(k - 1) div m = k div m"
    by (rule int_div_pos_eq)
  then show ?thesis ..
qed

lemma minus_one_div_pow: "(- 1 :: int) div 2 ^ L = - 1"
proof -
  have "(- 1 :: int) = 2 ^ L * (- 1) + (2 ^ L - 1)" by simp
  moreover have "(0::int) \<le> 2 ^ L - 1" by simp
  moreover have "(2::int) ^ L - 1 < 2 ^ L" by simp
  ultimately show ?thesis by (rule int_div_pos_eq)
qed

lemma div_lower:
  fixes x m :: int
  assumes "0 < m"
  shows "(x div m) * m \<le> x"
proof -
  have "m * (x div m) + x mod m = x" by (rule mult_div_mod_eq)
  moreover have "0 \<le> x mod m" using assms by simp
  ultimately have "m * (x div m) \<le> x" by linarith
  then show ?thesis by (simp add: mult.commute)
qed

lemma div_upper:
  fixes x m :: int
  assumes "0 < m"
  shows "x < (x div m + 1) * m"
proof -
  have "m * (x div m) + x mod m = x" by (rule mult_div_mod_eq)
  moreover have "x mod m < m" using assms by simp
  ultimately have "x < m * (x div m) + m" by linarith
  then show ?thesis by (simp add: algebra_simps)
qed

lemma right_of_mono:
  fixes x k m :: int
  assumes "0 < m" "x div m = k div m + 1"
  shows "k < x"
proof -
  have "k < (k div m + 1) * m" using assms(1) by (rule div_upper)
  also have "\<dots> = (x div m) * m" using assms(2) by simp
  also have "\<dots> \<le> x" using assms(1) by (rule div_lower)
  finally show ?thesis .
qed

lemma sib_neq: "sib j \<noteq> j"
  by (simp add: sib_def)

section \<open>Store keys\<close>

text \<open>
  The key of an entry determines its level and its index: the decimal rendering is
  injective, and neither the digits nor the minus sign contain the underscore.
\<close>

lemma digitChar_inj: "a < 10 \<Longrightarrow> b < 10 \<Longrightarrow> digitChar a = digitChar b \<Longrightarrow> a = b"
proof -
  assume a: "a < 10" and b: "b < 10" and e: "digitChar a = digitChar b"
  have d: "distinct ''0123456789''" by simp
  have l: "length ''0123456789'' = 10" by simp
  from e have "''0123456789'' ! a = ''0123456789'' ! b" by (simp only: digitChar_def)
  with d a b l show "a = b" by (simp only: nth_eq_iff_index_eq)
qed

lemma digitChar_in: "d < 10 \<Longrightarrow> digitChar d \<in> set ''0123456789''"
  unfolding digitChar_def by (rule nth_mem) simp

lemma showNat_digits: "set (showNat n) \<subseteq> set ''0123456789''"
proof (induction n rule: showNat.induct)
  case (1 n)
  show ?case
  proof (cases "n < 10")
    case True
    then show ?thesis
      using digitChar_in[of n] by (subst showNat.simps) simp
  next
    case False
    have "n mod 10 < 10" by simp
    then have "digitChar (n mod 10) \<in> set ''0123456789''" by (rule digitChar_in)
    with False 1[OF False] show ?thesis
      by (subst showNat.simps) simp
  qed
qed

lemma showNat_nonempty: "showNat n \<noteq> []"
  by (subst showNat.simps) simp

lemma showNat_inj: "showNat n = showNat m \<Longrightarrow> n = m"
proof (induction n arbitrary: m rule: showNat.induct)
  case (1 n)
  show ?case
  proof (cases "n < 10")
    case n: True
    show ?thesis
    proof (cases "m < 10")
      case True
      with n "1.prems" have "digitChar n = digitChar m"
        by (simp add: showNat.simps[of n] showNat.simps[of m])
      with n True show ?thesis by (rule digitChar_inj)
    next
      case False
      with n "1.prems" have "showNat (m div 10) = []"
        by (simp add: showNat.simps[of n] showNat.simps[of m] Cons_eq_append_conv)
      then show ?thesis by (simp add: showNat_nonempty)
    qed
  next
    case n: False
    show ?thesis
    proof (cases "m < 10")
      case True
      with n "1.prems" have "showNat (n div 10) = []"
        by (simp add: showNat.simps[of n] showNat.simps[of m] append_eq_Cons_conv)
      then show ?thesis by (simp add: showNat_nonempty)
    next
      case False
      with n "1.prems" have e: "showNat (n div 10) = showNat (m div 10)"
        and d: "digitChar (n mod 10) = digitChar (m mod 10)"
        by (simp_all add: showNat.simps[of n] showNat.simps[of m])
      from e have "n div 10 = m div 10" by (rule 1(1)[OF n])
      moreover from d have "n mod 10 = m mod 10" by (intro digitChar_inj) simp_all
      ultimately show ?thesis by (metis div_mult_mod_eq)
    qed
  qed
qed

lemma showNat_no_minus: "CHR ''-'' \<notin> set (showNat n)"
  using showNat_digits[of n] by auto

lemma showNat_no_underscore: "CHR ''_'' \<notin> set (showNat n)"
  using showNat_digits[of n] by auto

lemma showNat_hd_not_minus: "showNat n \<noteq> CHR ''-'' # xs"
  using showNat_no_minus[of n] by auto

lemma showInt_no_underscore: "CHR ''_'' \<notin> set (showInt i)"
  by (simp add: showInt_def showNat_no_underscore)

lemma showInt_inj: "showInt i = showInt j \<Longrightarrow> i = j"
proof -
  assume e: "showInt i = showInt j"
  show ?thesis
  proof (cases "i < 0")
    case i: True
    show ?thesis
    proof (cases "j < 0")
      case True
      with i e have "showNat (nat (- i)) = showNat (nat (- j))" by (simp add: showInt_def)
      then have "nat (- i) = nat (- j)" by (rule showNat_inj)
      with i True show ?thesis by simp
    next
      case False
      with i e have "showNat (nat j) = CHR ''-'' # showNat (nat (- i))" by (simp add: showInt_def)
      then show ?thesis by (simp add: showNat_hd_not_minus)
    qed
  next
    case i: False
    show ?thesis
    proof (cases "j < 0")
      case True
      with i e have "showNat (nat i) = CHR ''-'' # showNat (nat (- j))" by (simp add: showInt_def)
      then show ?thesis by (simp add: showNat_hd_not_minus)
    next
      case False
      with i e have "showNat (nat i) = showNat (nat j)" by (simp add: showInt_def)
      then have "nat i = nat j" by (rule showNat_inj)
      with i False show ?thesis by simp
    qed
  qed
qed

lemma nodeKey_inj: "(nodeKey l i = nodeKey l' i') = (l = l' \<and> i = i')"
proof
  assume "nodeKey l i = nodeKey l' i'"
  then have "showNat l @ CHR ''_'' # showInt i = showNat l' @ CHR ''_'' # showInt i'"
    by (simp only: nodeKey_def)
  then have "showNat l = showNat l' \<and> showInt i = showInt i'"
    using append_Cons_eq_iff[where x = "CHR ''_''" and xs = "showNat l" and ys = "showInt i"
        and xs' = "showNat l'" and ys' = "showInt i'"]
      showNat_no_underscore[of l] showInt_no_underscore[of i]
    by blast
  then show "l = l' \<and> i = i'"
    by (simp add: showNat_inj showInt_inj)
next
  assume "l = l' \<and> i = i'"
  then show "nodeKey l i = nodeKey l' i'" by simp
qed

section \<open>The loops in closed form\<close>

text \<open>
  Every counting loop of the source computes its structurally recursive counterpart of
  the reference semantics.
\<close>

lemma merkleRootLoop_drop:
  "merkleRootLoop H sibs i idx v = foldPath H (drop i sibs) idx v"
proof (induction H sibs i idx v rule: merkleRootLoop.induct)
  case (1 H sibs i idx v)
  show ?case
  proof (cases "i < length sibs")
    case True
    then have d: "drop i sibs = sibs ! i # drop (Suc i) sibs"
      by (simp add: Cons_nth_drop_Suc)
    show ?thesis
      using True 1[OF True refl]
      by (subst merkleRootLoop.simps) (simp add: d smod_two_iff_even)
  next
    case False
    then show ?thesis by (subst merkleRootLoop.simps) simp
  qed
qed

lemma computeMerkleRootFromProof_foldPath:
  "computeMerkleRootFromProof H sibs idx v = foldPath H sibs idx v"
  by (simp add: computeMerkleRootFromProof_def merkleRootLoop_drop)

lemma merklePathLoop_drop:
  "merklePathLoop H sibs i idx v acc = acc @ tl (pathNodes H (drop i sibs) idx v)"
proof (induction H sibs i idx v acc rule: merklePathLoop.induct)
  case (1 H sibs i idx v acc)
  show ?case
  proof (cases "i < length sibs")
    case True
    then have d: "drop i sibs = sibs ! i # drop (Suc i) sibs"
      by (simp add: Cons_nth_drop_Suc)
    show ?thesis
      using True 1[OF True refl refl]
      apply (subst merklePathLoop.simps) 
      apply (simp add: d smod_two_iff_even Let_def)
      apply (cases "drop (Suc i) sibs")
      apply auto
      done
  next
    case False
    then show ?thesis by (subst merklePathLoop.simps) simp
  qed
qed

lemma pathNodes_hd: "pathNodes H sibs idx v = v # tl (pathNodes H sibs idx v)"
  by (cases sibs) simp_all

lemma computeMerklePathFromProof_pathNodes:
  "computeMerklePathFromProof H sibs idx v = pathNodes H sibs idx v"
  unfolding computeMerklePathFromProof_def merklePathLoop_drop
  using pathNodes_hd[of H sibs idx v] by simp

lemma pathNodes_nth:
  "L \<le> length sibs \<Longrightarrow> pathNodes H sibs idx v ! L = foldPath H (take L sibs) idx v"
proof (induction sibs arbitrary: idx v L)
  case Nil
  then show ?case by simp
next
  case (Cons s ss)
  then show ?case by (cases L) simp_all
qed

lemma zeroHashesLoop_closed:
  "1 \<le> i \<Longrightarrow> i \<le> Suc height \<Longrightarrow> cur = zeroAt H (i - 1) \<Longrightarrow>
   zeroHashesLoop H height i cur zs = zs @ map (zeroAt H) [i..<Suc height]"
proof (induction H height i cur zs rule: zeroHashesLoop.induct)
  case (1 H height i cur zs)
  show ?case
  proof (cases "i \<le> height")
    case True
    have n: "H cur cur = zeroAt H i"
      using "1.prems" by (cases i) simp_all
    have u: "[i..<Suc height] = i # [i + 1..<Suc height]"
      using True by (simp add: upt_conv_Cons del: upt_Suc)
    have "zeroHashesLoop H height (i + 1) (H cur cur) (zs @ [H cur cur])
            = (zs @ [H cur cur]) @ map (zeroAt H) [i + 1..<Suc height]"
      using True n by (intro 1(1)[OF True refl]) simp_all
    then show ?thesis
      using True n by (subst zeroHashesLoop.simps) (simp add: u Let_def del: upt_Suc)
  next
    case False
    with "1.prems" have "i = Suc height" by simp
    then show ?thesis by (subst zeroHashesLoop.simps) simp
  qed
qed

lemma computeZeroHashes_closed:
  "computeZeroHashes H height = map (zeroAt H) [0..<Suc height]"
proof -
  have "zeroHashesLoop H height 1 zeroDigest [zeroDigest] = [zeroDigest] @ map (zeroAt H) [1..<Suc height]"
    by (rule zeroHashesLoop_closed) simp_all
  moreover have "[0..<Suc height] = 0 # [1..<Suc height]"
    by (simp add: upt_conv_Cons del: upt_Suc)
  ultimately show ?thesis
    by (simp add: computeZeroHashes_def del: upt_Suc)
qed

lemma computeZeroHashes_nth:
  "i \<le> height \<Longrightarrow> computeZeroHashes H height ! i = zeroAt H i"
  unfolding computeZeroHashes_closed
  by (subst nth_map) (simp_all del: upt_Suc)

lemma length_computeZeroHashes: "length (computeZeroHashes H height) = Suc height"
  by (simp add: computeZeroHashes_closed del: upt_Suc)

lemma take_computeZeroHashes: "take h (computeZeroHashes H h) = map (zeroAt H) [0..<h]"
  by (simp add: computeZeroHashes_closed take_map del: upt_Suc)

lemma appendLoop_closed:
  "level \<le> height \<Longrightarrow> multiplier = 2 ^ level \<Longrightarrow>
   appendLoop height zs os op p n level multiplier acc =
     acc @ map (pickSibling zs os op p n) [level..<height]"
proof (induction height zs os op p n level multiplier acc rule: appendLoop.induct)
  case (1 height zs os op p n level multiplier acc)
  show ?case
  proof (cases "level < height")
    case True
    have u: "[level..<height] = level # [level + 1..<height]"
      using True by (simp add: upt_conv_Cons)
    have ih: "appendLoop height zs os op p n (level + 1) (multiplier * 2)
                (acc @ [pickSibling zs os op p n level])
              = (acc @ [pickSibling zs os op p n level]) @ map (pickSibling zs os op p n) [level + 1..<height]"
      using True "1.prems"
      by (intro 1(1)[OF True refl refl]) (simp_all add: pickSibling_def smod_two_iff_even)
    have step: "appendLoop height zs os op p n level multiplier acc =
                appendLoop height zs os op p n (level + 1) (multiplier * 2)
                  (acc @ [pickSibling zs os op p n level])"
      using True "1.prems"
      by (subst appendLoop.simps) (simp add: Let_def pickSibling_def smod_two_iff_even)
    show ?thesis
      unfolding step ih by (simp add: u)
  next
    case False
    with "1.prems" have "level = height" by simp
    then show ?thesis by (subst appendLoop.simps) simp
  qed
qed

lemma appendLeaf_closed:
  "appendLeaf H t v =
     (let p = index (lastProof t);
          sibs = map (pickSibling (appendZeroHashes t) (siblings (lastProof t))
                        (pathNodes H (siblings (lastProof t)) p (leafValue (lastProof t))) p (p + 1))
                     [0..<appendHeight t];
          newR = foldPath H sibs (p + 1) v
      in (\<lparr> deltaIndex = p + 1, deltaSiblings = sibs, oldRoot = root (lastProof t),
             oldValue = zeroDigest, newRoot = newR, newValue = v \<rparr>,
          t \<lparr> lastProof := \<lparr> root = newR, siblings = sibs, index = p + 1, leafValue = v \<rparr> \<rparr>))"
  by (simp add: appendLeaf_def Let_def appendLoop_closed computeMerklePathFromProof_pathNodes
      computeMerkleRootFromProof_foldPath)

lemma appendLeaf_index:
  "index (lastProof (snd (appendLeaf H t v))) = index (lastProof t) + 1"
  by (simp add: appendLeaf_closed Let_def)

section \<open>The complete tree\<close>

text \<open>
  A node of the complete tree depends on the leaves below it only; folding a node with
  the siblings on its way up gives its ancestors.
\<close>

lemma nodeAt_cong:
  "(\<And>x. x div 2 ^ L = j \<Longrightarrow> lv x = lv' x) \<Longrightarrow> nodeAt H lv L j = nodeAt H lv' L j"
proof (induction L arbitrary: j)
  case 0
  then show ?case by simp
next
  case (Suc L)
  have a: "nodeAt H lv L (2 * j) = nodeAt H lv' L (2 * j)"
  proof (rule Suc.IH)
    fix x :: int assume "x div 2 ^ L = 2 * j"
    then have "x div 2 ^ Suc L = j" by (simp add: div_pow_Suc)
    then show "lv x = lv' x" by (rule Suc.prems)
  qed
  have b: "nodeAt H lv L (2 * j + 1) = nodeAt H lv' L (2 * j + 1)"
  proof (rule Suc.IH)
    fix x :: int assume "x div 2 ^ L = 2 * j + 1"
    then have "x div 2 ^ Suc L = j" by (simp add: div_pow_Suc)
    then show "lv x = lv' x" by (rule Suc.prems)
  qed
  show ?case by (simp add: a b)
qed

lemma nodeAt_const: "nodeAt H (\<lambda>_. zeroDigest) L j = zeroAt H L"
  by (induction L arbitrary: j) simp_all

lemma nodeAt_zero:
  assumes "\<And>x. x div 2 ^ L = j \<Longrightarrow> lv x = zeroDigest"
  shows "nodeAt H lv L j = zeroAt H L"
proof -
  have "nodeAt H lv L j = nodeAt H (\<lambda>_. zeroDigest) L j"
    by (rule nodeAt_cong) (simp add: assms)
  then show ?thesis by (simp add: nodeAt_const)
qed

lemma nodeAt_parent:
  "nodeAt H lv (Suc a) (j div 2) =
     (if even j then H (nodeAt H lv a j) (nodeAt H lv a (sib j))
      else H (nodeAt H lv a (sib j)) (nodeAt H lv a j))"
  by (auto simp: sib_def elim!: evenE oddE)

lemma nodeAt_upd_other: "j div 2 ^ L \<noteq> i \<Longrightarrow> nodeAt H (lv(j := v)) L i = nodeAt H lv L i"
  by (rule nodeAt_cong) auto

lemma foldPath_treeSiblings:
  "foldPath H (treeSiblings H lv a j n) j (nodeAt H lv a j) = nodeAt H lv (a + n) (j div 2 ^ n)"
proof (induction n arbitrary: a j)
  case 0
  then show ?case by simp
next
  case (Suc n)
  have "foldPath H (treeSiblings H lv a j (Suc n)) j (nodeAt H lv a j)
          = foldPath H (treeSiblings H lv (Suc a) (j div 2) n) (j div 2) (nodeAt H lv (Suc a) (j div 2))"
    by (simp only: treeSiblings.simps foldPath.simps nodeAt_parent)
  also have "\<dots> = nodeAt H lv (Suc a + n) (j div 2 div 2 ^ n)"
    by (rule Suc.IH)
  finally show ?case by (simp add: div_pow_Suc')
qed

lemma length_treeSiblings: "length (treeSiblings H lv a j n) = n"
  by (induction n arbitrary: a j) simp_all

lemma treeSiblings_nth:
  "k < n \<Longrightarrow> treeSiblings H lv a j n ! k = nodeAt H lv (a + k) (sib (j div 2 ^ k))"
proof (induction n arbitrary: a j k)
  case 0
  then show ?case by simp
next
  case (Suc n)
  show ?case
  proof (cases k)
    case 0
    then show ?thesis by simp
  next
    case (Suc k')
    with Suc.prems have "k' < n" by simp
    from Suc.IH[OF this, of "Suc a" "j div 2"] Suc show ?thesis
      by (simp add: div_pow_Suc')
  qed
qed

lemma take_treeSiblings:
  "k \<le> n \<Longrightarrow> take k (treeSiblings H lv a j n) = treeSiblings H lv a j k"
proof (induction n arbitrary: a j k)
  case 0
  then show ?case by simp
next
  case (Suc n)
  then show ?case by (cases k) simp_all
qed

lemma treeSiblings_cong:
  "(\<And>x. x div 2 ^ a \<noteq> j \<Longrightarrow> lv x = lv' x) \<Longrightarrow>
   treeSiblings H lv a j n = treeSiblings H lv' a j n"
proof (induction n arbitrary: a j)
  case 0
  then show ?case by simp
next
  case (Suc n)
  have hd: "nodeAt H lv a (sib j) = nodeAt H lv' a (sib j)"
    by (rule nodeAt_cong) (simp add: Suc.prems sib_neq)
  have tl: "treeSiblings H lv (Suc a) (j div 2) n = treeSiblings H lv' (Suc a) (j div 2) n"
  proof (rule Suc.IH)
    fix x :: int assume "x div 2 ^ Suc a \<noteq> j div 2"
    then have "x div 2 ^ a \<noteq> j" by (auto simp: div_pow_Suc)
    then show "lv x = lv' x" by (rule Suc.prems)
  qed
  show ?case by (simp add: hd tl)
qed

lemma treeSiblings_upd: "treeSiblings H (lv(j := v)) 0 j n = treeSiblings H lv 0 j n"
  by (rule treeSiblings_cong) simp

lemma foldPath_take_treeSiblings:
  "k \<le> n \<Longrightarrow> foldPath H (take k (treeSiblings H lv 0 j n)) j (lv j) = nodeAt H lv k (j div 2 ^ k)"
  using foldPath_treeSiblings[of H lv 0 j k] by (simp add: take_treeSiblings)

section \<open>The sparse tree maintains the complete tree\<close>

text \<open>
  The result of \<^verbatim>\<open>setLeaf\<close> in closed form, for any store; and the invariant that the store
  agrees with a leaf assignment, which a fresh tree satisfies and every in-range
  \<^verbatim>\<open>setLeaf\<close> preserves while returning a delta proof that verifies.
\<close>

lemma get_setNode:
  "get (setNode s l i v) l' i' = (if l' = l \<and> i' = i then v else get s l' i')"
  by (auto simp: get_def setNode_def contains_def nodeKey_inj)

lemma setNode_fields:
  "storeHeight (setNode s l i v) = storeHeight s"
  "storeZeroHashes (setNode s l i v) = storeZeroHashes s"
  "nodes (setNode s l i v) = (nodes s)(nodeKey l i \<mapsto> v)"
  by (simp_all add: setNode_def)

lemma get_new:
  "lev \<le> height \<Longrightarrow> get (newNodeStore H height) lev j = zeroAt H (height - lev)"
  by (simp add: get_def contains_def newNodeStore_def computeZeroHashes_nth)

lemma length_storeSiblings: "length (storeSiblings g l idx) = l"
  by (induction l arbitrary: idx) simp_all

lemma storeSiblings_cong:
  "(\<And>lev j. 1 \<le> lev \<Longrightarrow> lev \<le> l \<Longrightarrow> j \<noteq> idx div 2 ^ (l - lev) \<Longrightarrow> g lev j = g' lev j) \<Longrightarrow>
   storeSiblings g l idx = storeSiblings g' l idx"
proof (induction l arbitrary: idx)
  case 0
  then show ?case by simp
next
  case (Suc l)
  have hd: "g (Suc l) (sib idx) = g' (Suc l) (sib idx)"
    by (rule Suc.prems) (simp_all add: sib_neq)
  have tl: "storeSiblings g l (idx div 2) = storeSiblings g' l (idx div 2)"
  proof (rule Suc.IH)
    fix lev j
    assume a: "1 \<le> lev" "lev \<le> l" "j \<noteq> idx div 2 div 2 ^ (l - lev)"
    then have e: "Suc l - lev = Suc (l - lev)" by simp
    show "g lev j = g' lev j"
      using a by (intro Suc.prems) (simp_all add: e div_pow_Suc')
  qed
  show ?case by (simp add: hd tl)
qed


lemma storeSiblings_treeSiblings:
  "(\<And>lev j. 1 \<le> lev \<Longrightarrow> lev \<le> l \<Longrightarrow> g lev j = nodeAt H lv (a + l - lev) j) \<Longrightarrow>
   storeSiblings g l idx = treeSiblings H lv a idx l"
proof (induction l arbitrary: a idx)
  case 0
  then show ?case by simp
next
  case (Suc l)
  have hd: "g (Suc l) (sib idx) = nodeAt H lv a (sib idx)"
    using Suc.prems[of "Suc l" "sib idx"] by simp
  have tl: "storeSiblings g l (idx div 2) = treeSiblings H lv (Suc a) (idx div 2) l"
  proof (rule Suc.IH)
    fix lev j assume "1 \<le> lev" "lev \<le> l"
    then show "g lev j = nodeAt H lv (Suc a + l - lev) j"
      using Suc.prems[of lev j] by simp
  qed
  show ?case by (simp add: hd tl)
qed

lemma setLeafLoop_step:
  "setLeafLoop H (Suc l) s idx v acc =
     setLeafLoop H l (setNode s (Suc l) idx v) (idx div 2)
       (if even idx then H v (get s (Suc l) (sib idx)) else H (get s (Suc l) (sib idx)) v)
       (acc @ [get s (Suc l) (sib idx)])"
  by (simp add: Let_def smod_two_iff_even get_setNode sib_def)

lemma setLeafLoop_sibs:
  "snd (snd (setLeafLoop H l s idx v acc)) = acc @ storeSiblings (get s) l idx"
proof (induction l arbitrary: s idx v acc)
  case 0
  then show ?case by simp
next
  case (Suc l)
  have "storeSiblings (get (setNode s (Suc l) idx v)) l (idx div 2)
          = storeSiblings (get s) l (idx div 2)"
    by (rule storeSiblings_cong) (simp add: get_setNode)
  then show ?case
    by (simp only: setLeafLoop_step Suc.IH) simp
qed

lemma setLeafLoop_value:
  "fst (snd (setLeafLoop H l s idx v acc)) = foldPath H (storeSiblings (get s) l idx) idx v"
proof (induction l arbitrary: s idx v acc)
  case 0
  then show ?case by simp
next
  case (Suc l)
  have "storeSiblings (get (setNode s (Suc l) idx v)) l (idx div 2)
          = storeSiblings (get s) l (idx div 2)"
    by (rule storeSiblings_cong) (simp add: get_setNode)
  then show ?case
    by (simp only: setLeafLoop_step Suc.IH) simp
qed

lemma setLeafLoop_fields:
  "storeHeight (fst (setLeafLoop H l s idx v acc)) = storeHeight s \<and>
   storeZeroHashes (fst (setLeafLoop H l s idx v acc)) = storeZeroHashes s"
proof (induction l arbitrary: s idx v acc)
  case 0
  then show ?case by simp
next
  case (Suc l)
  show ?case
    by (simp only: setLeafLoop_step Suc.IH setNode_fields)
qed

lemma setLeafLoop_nodes:
  "nodes (fst (setLeafLoop H l s idx v acc)) (nodeKey lev j) =
     (if 1 \<le> lev \<and> lev \<le> l \<and> j = idx div 2 ^ (l - lev)
      then Some (foldPath H (take (l - lev) (storeSiblings (get s) l idx)) idx v)
      else nodes s (nodeKey lev j))"
proof (induction l arbitrary: s idx v acc)
  case 0
  then show ?case by auto
next
  case (Suc l)
  let ?s1 = "setNode s (Suc l) idx v"
  let ?v1 = "if even idx then H v (get s (Suc l) (sib idx)) else H (get s (Suc l) (sib idx)) v"
  have c: "storeSiblings (get ?s1) l (idx div 2) = storeSiblings (get s) l (idx div 2)"
    by (rule storeSiblings_cong) (simp add: get_setNode)
  have ih: "nodes (fst (setLeafLoop H (Suc l) s idx v acc)) (nodeKey lev j) =
     (if 1 \<le> lev \<and> lev \<le> l \<and> j = idx div 2 div 2 ^ (l - lev)
      then Some (foldPath H (take (l - lev) (storeSiblings (get s) l (idx div 2))) (idx div 2) ?v1)
      else nodes ?s1 (nodeKey lev j))"
    by (simp only: setLeafLoop_step Suc.IH c)
  show ?case
  proof (cases "lev \<le> l")
    case True
    then have e: "Suc l - lev = Suc (l - lev)" by simp
    show ?thesis
      using True
      by (simp add: ih e div_pow_Suc' setNode_fields nodeKey_inj del: setLeafLoop.simps)
  next
    case False
    then show ?thesis
      by (simp add: ih setNode_fields nodeKey_inj del: setLeafLoop.simps)
  qed
qed



lemma setLeafLoop_get:
  "get (fst (setLeafLoop H l s idx v acc)) lev j =
     (if 1 \<le> lev \<and> lev \<le> l \<and> j = idx div 2 ^ (l - lev)
      then foldPath H (take (l - lev) (storeSiblings (get s) l idx)) idx v
      else get s lev j)"
  by (auto simp: get_def contains_def setLeafLoop_nodes setLeafLoop_fields)

lemma setLeaf_closed:
  "setLeaf H t idx v =
     (\<lparr> deltaIndex = idx,
         deltaSiblings = storeSiblings (get (nodeStore t)) (treeHeight t) idx,
         oldRoot = get (nodeStore t) 0 0,
         oldValue = get (nodeStore t) (treeHeight t) idx,
         newRoot = foldPath H (storeSiblings (get (nodeStore t)) (treeHeight t) idx) idx v,
         newValue = v \<rparr>,
      t \<lparr> nodeStore :=
            setNode (fst (setLeafLoop H (treeHeight t) (nodeStore t) idx v [])) 0 0
              (foldPath H (storeSiblings (get (nodeStore t)) (treeHeight t) idx) idx v) \<rparr>)"
proof -
  let ?R = "setLeafLoop H (treeHeight t) (nodeStore t) idx v []"
  have split: "?R = (fst ?R, fst (snd ?R), snd (snd ?R))" by simp
  show ?thesis
    unfolding setLeaf_def Let_def
    by (subst split) (simp only: prod.case setLeafLoop_sibs setLeafLoop_value append_Nil)
qed

lemma setLeaf_get:
  "get (nodeStore (snd (setLeaf H t idx v))) lev j =
     (if lev = 0 \<and> j = 0
      then foldPath H (storeSiblings (get (nodeStore t)) (treeHeight t) idx) idx v
      else if 1 \<le> lev \<and> lev \<le> treeHeight t \<and> j = idx div 2 ^ (treeHeight t - lev)
      then foldPath H (take (treeHeight t - lev)
             (storeSiblings (get (nodeStore t)) (treeHeight t) idx)) idx v
      else get (nodeStore t) lev j)"
  by (simp add: setLeaf_closed get_setNode setLeafLoop_get)




lemma setLeaf_siblings_after:
  "storeSiblings (get (nodeStore (snd (setLeaf H t idx v)))) (treeHeight t) idx
     = storeSiblings (get (nodeStore t)) (treeHeight t) idx"
  by (rule storeSiblings_cong) (simp add: setLeaf_get)

lemma storeAgrees_new: "storeAgrees H (newZeroMerkleTree H height) (\<lambda>_. zeroDigest)"
  by (simp add: storeAgrees_def newZeroMerkleTree_def get_new nodeAt_const)
     (simp add: newNodeStore_def)

lemma getRoot_agrees: "storeAgrees H t lv \<Longrightarrow> getRoot t = nodeAt H lv (treeHeight t) 0"
  by (simp add: getRoot_def storeAgrees_def)

lemma setLeaf_agrees:
  assumes inv: "storeAgrees H t lv" and r: "0 \<le> idx" "idx < 2 ^ treeHeight t"
  shows "deltaSiblings (fst (setLeaf H t idx v)) = treeSiblings H lv 0 idx (treeHeight t)"
    and "deltaIndex (fst (setLeaf H t idx v)) = idx"
    and "oldRoot (fst (setLeaf H t idx v)) = getRoot t"
    and "oldValue (fst (setLeaf H t idx v)) = lv idx"
    and "newValue (fst (setLeaf H t idx v)) = v"
    and "newRoot (fst (setLeaf H t idx v)) = getRoot (snd (setLeaf H t idx v))"
    and "treeHeight (snd (setLeaf H t idx v)) = treeHeight t"
    and "storeAgrees H (snd (setLeaf H t idx v)) (lv(idx := v))"
    and "verifyDeltaMerkleProof H (fst (setLeaf H t idx v))"
proof -
  let ?h = "treeHeight t"
  let ?s = "nodeStore t"
  let ?S = "treeSiblings H lv 0 idx ?h"
  let ?R = "setLeafLoop H ?h ?s idx v []"
  have g: "\<And>lev j. lev \<le> ?h \<Longrightarrow> get ?s lev j = nodeAt H lv (?h - lev) j"
    using inv by (simp add: storeAgrees_def)
  have S: "storeSiblings (get ?s) ?h idx = ?S"
    by (rule storeSiblings_treeSiblings) (simp add: g)
  have sibs: "snd (snd ?R) = ?S"
    by (simp add: setLeafLoop_sibs S)
  have cv: "fst (snd ?R) = foldPath H ?S idx v"
    by (simp add: setLeafLoop_value S)
  have split: "?R = (fst ?R, fst (snd ?R), snd (snd ?R))" by simp
  have res: "setLeaf H t idx v =
      (\<lparr> deltaIndex = idx, deltaSiblings = ?S, oldRoot = get ?s 0 0, oldValue = get ?s ?h idx,
          newRoot = foldPath H ?S idx v, newValue = v \<rparr>,
       t \<lparr> nodeStore := setNode (fst ?R) 0 0 (foldPath H ?S idx v) \<rparr>)"
    unfolding setLeaf_def Let_def by (subst split) (simp only: prod.case sibs cv)
  show "deltaSiblings (fst (setLeaf H t idx v)) = ?S" by (simp add: res)
  show "deltaIndex (fst (setLeaf H t idx v)) = idx" by (simp add: res)
  show "oldRoot (fst (setLeaf H t idx v)) = getRoot t" by (simp add: res getRoot_def)
  show ov: "oldValue (fst (setLeaf H t idx v)) = lv idx" by (simp add: res g)
  show "newValue (fst (setLeaf H t idx v)) = v" by (simp add: res)
  show "newRoot (fst (setLeaf H t idx v)) = getRoot (snd (setLeaf H t idx v))"
    by (simp add: res getRoot_def get_setNode)
  have root: "getRoot t = nodeAt H lv ?h 0" by (simp add: getRoot_def g)
  show "treeHeight (snd (setLeaf H t idx v)) = ?h" by (simp add: res)
  have z: "idx div 2 ^ ?h = 0" using r by (rule div_pow_in_range)
  let ?lv' = "lv(idx := v)"
  have fold_new: "\<And>k. k \<le> ?h \<Longrightarrow> foldPath H (take k ?S) idx v = nodeAt H ?lv' k (idx div 2 ^ k)"
    using foldPath_take_treeSiblings[of _ ?h H ?lv' idx] by (simp add: treeSiblings_upd)
  have new_root: "foldPath H ?S idx v = nodeAt H ?lv' ?h 0"
    using fold_new[of ?h] z by (simp add: length_treeSiblings)
  have old_fold: "foldPath H ?S idx (lv idx) = nodeAt H lv ?h 0"
    using foldPath_take_treeSiblings[of ?h ?h H lv idx] z by (simp add: length_treeSiblings)
  show "storeAgrees H (snd (setLeaf H t idx v)) ?lv'"
    unfolding storeAgrees_def
  proof (intro conjI allI impI)
    show "storeHeight (nodeStore (snd (setLeaf H t idx v))) = treeHeight (snd (setLeaf H t idx v))"
      using inv by (simp add: res setNode_fields setLeafLoop_fields storeAgrees_def)
  next
    fix lev j assume "lev \<le> treeHeight (snd (setLeaf H t idx v))"
    then have le: "lev \<le> ?h" by (simp add: res)
    have "get (setNode (fst ?R) 0 0 (foldPath H ?S idx v)) lev j = nodeAt H ?lv' (?h - lev) j"
    proof (cases "lev = 0 \<and> j = 0")
      case True
      then show ?thesis by (simp add: get_setNode new_root)
    next
      case False
      note nz = this
      show ?thesis
      proof (cases "1 \<le> lev \<and> j = idx div 2 ^ (?h - lev)")
        case True
        then show ?thesis
          using le nz fold_new[of "?h - lev"]
          by (simp add: get_setNode setLeafLoop_get S)
      next
        case False
        have ne: "idx div 2 ^ (?h - lev) \<noteq> j"
        proof (cases "lev = 0")
          case True
          with nz z show ?thesis by simp
        next
          case False
          with \<open>\<not> (1 \<le> lev \<and> j = idx div 2 ^ (?h - lev))\<close> show ?thesis by auto
        qed
        have "get (setNode (fst ?R) 0 0 (foldPath H ?S idx v)) lev j = get ?s lev j"
          using nz False by (auto simp: get_setNode setLeafLoop_get)
        also have "\<dots> = nodeAt H lv (?h - lev) j" using le by (rule g)
        also have "\<dots> = nodeAt H ?lv' (?h - lev) j"
          using ne by (simp add: nodeAt_upd_other)
        finally show ?thesis .
      qed
    qed
    then show "get (nodeStore (snd (setLeaf H t idx v))) lev j =
               nodeAt H ?lv' (treeHeight (snd (setLeaf H t idx v)) - lev) j"
      by (simp add: res)
  qed
  show "verifyDeltaMerkleProof H (fst (setLeaf H t idx v))"
    using old_fold root
    by (simp add: res verifyDeltaMerkleProof_def verifyMerkleProof_def
        computeMerkleRootFromProof_foldPath g getRoot_def)
qed

lemma setLeaves_Cons:
  "setLeaves H t ((idx, v) # calls) =
     (fst (setLeaf H t idx v) # fst (setLeaves H (snd (setLeaf H t idx v)) calls),
      snd (setLeaves H (snd (setLeaf H t idx v)) calls))"
  by (simp add: split_beta)

lemma chained_nth:
  "chained r ps \<Longrightarrow> 0 < i \<Longrightarrow> i < length ps \<Longrightarrow> oldRoot (ps ! i) = newRoot (ps ! (i - 1))"
proof (induction ps arbitrary: r i)
  case Nil
  then show ?case by simp
next
  case (Cons p ps)
  show ?case
  proof (cases "i = 1")
    case True
    with Cons.prems show ?thesis by (cases ps) simp_all
  next
    case False
    with Cons.prems obtain j where j: "i = Suc j" "0 < j" "j < length ps"
      by (cases i) auto
    with Cons.prems Cons.IH[of "newRoot p" j] show ?thesis by simp
  qed
qed

lemma setLeaves_agrees:
  "storeAgrees H t lv \<Longrightarrow> \<forall>c \<in> set calls. 0 \<le> fst c \<and> fst c < 2 ^ treeHeight t \<Longrightarrow>
   length (fst (setLeaves H t calls)) = length calls \<and>
   list_all (verifyDeltaMerkleProof H) (fst (setLeaves H t calls)) \<and>
   chained (getRoot t) (fst (setLeaves H t calls)) \<and>
   treeHeight (snd (setLeaves H t calls)) = treeHeight t \<and>
   storeAgrees H (snd (setLeaves H t calls)) (applyCalls lv calls)"
proof (induction calls arbitrary: t lv)
  case Nil
  then show ?case by simp
next
  case (Cons c calls)
  obtain idx v where c: "c = (idx, v)" by (cases c)
  let ?p = "fst (setLeaf H t idx v)"
  let ?t1 = "snd (setLeaf H t idx v)"
  let ?R = "setLeaves H ?t1 calls"
  have r: "0 \<le> idx" "idx < 2 ^ treeHeight t" using Cons.prems(2) c by simp_all
  have old: "oldRoot ?p = getRoot t" and new: "newRoot ?p = getRoot ?t1"
    and ht: "treeHeight ?t1 = treeHeight t" and ver: "verifyDeltaMerkleProof H ?p"
    and inv: "storeAgrees H ?t1 (lv(idx := v))"
    using setLeaf_agrees[OF Cons.prems(1) r, of v] by simp_all
  have "\<forall>c \<in> set calls. 0 \<le> fst c \<and> fst c < 2 ^ treeHeight ?t1"
    using Cons.prems(2) ht by simp
  with inv have ih: "length (fst ?R) = length calls \<and>
      list_all (verifyDeltaMerkleProof H) (fst ?R) \<and>
      chained (getRoot ?t1) (fst ?R) \<and>
      treeHeight (snd ?R) = treeHeight ?t1 \<and>
      storeAgrees H (snd ?R) (applyCalls (lv(idx := v)) calls)"
    by (rule Cons.IH)
  have e: "setLeaves H t ((idx, v) # calls) = (?p # fst ?R, snd ?R)"
    by (rule setLeaves_Cons)
  show ?case
    unfolding c e using ih old new ht ver by (simp del: setLeaves.simps)
qed

lemma applyCalls_append: "applyCalls lv (xs @ ys) = applyCalls (applyCalls lv xs) ys"
  by (induction xs arbitrary: lv) auto

section \<open>The append-only tree maintains the complete tree\<close>

text \<open>
  The sibling that \<^verbatim>\<open>appendLeaf\<close> picks on every level is the sibling of the new leaf in the
  complete tree over the leaves appended so far: the old sibling where the ancestor did
  not change, a zero hash where the new ancestor is a left child, and the old path node
  where it is a right child.
\<close>

lemma leavesOf_snoc:
  "leavesOf (vs @ [v]) x = (if x = int (length vs) then v else leavesOf vs x)"
  by (auto simp: leavesOf_def nth_append)

lemma leavesOf_last: "vs \<noteq> [] \<Longrightarrow> leavesOf vs (int (length vs) - 1) = last vs"
  by (cases vs rule: rev_cases) (simp_all add: leavesOf_def nth_append)

lemma leavesOf_beyond: "int (length vs) \<le> x \<Longrightarrow> leavesOf vs x = zeroDigest"
  by (simp add: leavesOf_def)

lemma leavesOf_Nil: "leavesOf [] = (\<lambda>_. zeroDigest)"
  by (rule ext) (auto simp: leavesOf_def)

lemma applyCalls_in_order:
  "applyCalls (\<lambda>_. zeroDigest) (zip (map int [0..<length vs]) vs) = leavesOf vs"
proof (induction vs rule: rev_induct)
  case Nil
  then show ?case by (simp add: leavesOf_Nil)
next
  case (snoc v vs)
  have "zip (map int [0..<length (vs @ [v])]) (vs @ [v])
          = zip (map int [0..<length vs]) vs @ [(int (length vs), v)]"
    by simp
  then show ?case
    by (simp only: applyCalls_append snoc.IH applyCalls.simps) (auto simp: leavesOf_snoc)
qed

lemma pickSibling_tree:
  assumes inv: "appendAgrees H h vs t" and L: "L < h"
  shows "pickSibling (appendZeroHashes t) (siblings (lastProof t))
           (pathNodes H (siblings (lastProof t)) (int (length vs) - 1) (leafValue (lastProof t)))
           (int (length vs) - 1) (int (length vs)) L
         = nodeAt H (leavesOf vs) L (sib (int (length vs) div 2 ^ L))"
proof -
  let ?k = "int (length vs)"
  let ?m = "(2::int) ^ L"
  let ?lv = "leavesOf vs"
  let ?os = "siblings (lastProof t)"
  have m: "0 < ?m" by simp
  have zs: "appendZeroHashes t = computeZeroHashes H h" and len: "length ?os = h"
    using inv by (simp_all add: appendAgrees_def)
  have ne: "vs \<noteq> [] \<Longrightarrow> leafValue (lastProof t) = last vs \<and> ?os = treeSiblings H ?lv 0 (?k - 1) h"
    using inv by (simp add: appendAgrees_def)
  show ?thesis
  proof (cases "?k div ?m = (?k - 1) div ?m")
    case True
    have "vs \<noteq> []"
    proof
      assume "vs = []"
      with True show False by (simp add: minus_one_div_pow)
    qed
    with ne have os: "?os = treeSiblings H ?lv 0 (?k - 1) h" by simp
    have "?os ! L = nodeAt H ?lv L (sib ((?k - 1) div ?m))"
      using L by (subst os) (simp add: treeSiblings_nth)
    with True show ?thesis by (simp add: pickSibling_def)
  next
    case False
    with pred_div_cases[OF m, of ?k] have pd: "(?k - 1) div ?m = ?k div ?m - 1" by auto
    show ?thesis
    proof (cases "even (?k div ?m)")
      case True
      have "nodeAt H ?lv L (?k div ?m + 1) = zeroAt H L"
      proof (rule nodeAt_zero)
        fix x :: int assume "x div ?m = ?k div ?m + 1"
        with m have "?k < x" by (rule right_of_mono)
        then show "?lv x = zeroDigest" by (simp add: leavesOf_beyond)
      qed
      moreover have "appendZeroHashes t ! L = zeroAt H L"
        using L by (simp add: zs computeZeroHashes_nth)
      ultimately show ?thesis
        using False True by (simp add: pickSibling_def sib_def)
    next
      case odd: False
      have "vs \<noteq> []"
      proof
        assume "vs = []"
        with odd show False by simp
      qed
      with ne have os: "?os = treeSiblings H ?lv 0 (?k - 1) h"
        and lf: "leafValue (lastProof t) = last vs" by simp_all
      have "pathNodes H ?os (?k - 1) (leafValue (lastProof t)) ! L
              = foldPath H (take L ?os) (?k - 1) (leafValue (lastProof t))"
        using L len by (intro pathNodes_nth) simp
      also have "\<dots> = foldPath H (take L (treeSiblings H ?lv 0 (?k - 1) h)) (?k - 1) (?lv (?k - 1))"
        using os lf \<open>vs \<noteq> []\<close> by (simp add: leavesOf_last)
      also have "\<dots> = nodeAt H ?lv L ((?k - 1) div ?m)"
        using L by (intro foldPath_take_treeSiblings) simp
      finally show ?thesis
        using False odd pd by (simp add: pickSibling_def sib_def)
    qed
  qed
qed

lemma appendLeaf_agrees:
  assumes inv: "appendAgrees H h vs t" and r: "int (length vs) < 2 ^ h"
  shows "deltaSiblings (fst (appendLeaf H t v)) = treeSiblings H (leavesOf vs) 0 (int (length vs)) h"
    and "deltaIndex (fst (appendLeaf H t v)) = int (length vs)"
    and "oldRoot (fst (appendLeaf H t v)) = root (lastProof t)"
    and "oldValue (fst (appendLeaf H t v)) = zeroDigest"
    and "newValue (fst (appendLeaf H t v)) = v"
    and "newRoot (fst (appendLeaf H t v)) = root (lastProof (snd (appendLeaf H t v)))"
    and "appendAgrees H h (vs @ [v]) (snd (appendLeaf H t v))"
    and "verifyDeltaMerkleProof H (fst (appendLeaf H t v))"
proof -
  let ?k = "int (length vs)"
  let ?lv = "leavesOf vs"
  let ?lv' = "leavesOf (vs @ [v])"
  let ?S = "treeSiblings H ?lv 0 ?k h"
  have idx: "index (lastProof t) = ?k - 1" and ht: "appendHeight t = h"
    and zs: "appendZeroHashes t = computeZeroHashes H h"
    and rt: "root (lastProof t) = nodeAt H ?lv h 0"
    using inv by (simp_all add: appendAgrees_def)
  have sibs: "map (pickSibling (appendZeroHashes t) (siblings (lastProof t))
                 (pathNodes H (siblings (lastProof t)) (?k - 1) (leafValue (lastProof t)))
                 (?k - 1) ?k) [0..<h] = ?S"
  proof (rule nth_equalityI)
    show "length (map (pickSibling (appendZeroHashes t) (siblings (lastProof t))
                 (pathNodes H (siblings (lastProof t)) (?k - 1) (leafValue (lastProof t)))
                 (?k - 1) ?k) [0..<h]) = length ?S"
      by (simp add: length_treeSiblings)
  next
    fix L assume "L < length (map (pickSibling (appendZeroHashes t) (siblings (lastProof t))
                 (pathNodes H (siblings (lastProof t)) (?k - 1) (leafValue (lastProof t)))
                 (?k - 1) ?k) [0..<h])"
    then have L: "L < h" by simp
    then show "map (pickSibling (appendZeroHashes t) (siblings (lastProof t))
                 (pathNodes H (siblings (lastProof t)) (?k - 1) (leafValue (lastProof t)))
                 (?k - 1) ?k) [0..<h] ! L = ?S ! L"
      using pickSibling_tree[OF inv L] by (simp add: treeSiblings_nth)
  qed
  have res: "appendLeaf H t v =
     (\<lparr> deltaIndex = ?k, deltaSiblings = ?S, oldRoot = root (lastProof t),
         oldValue = zeroDigest, newRoot = foldPath H ?S ?k v, newValue = v \<rparr>,
      t \<lparr> lastProof := \<lparr> root = foldPath H ?S ?k v, siblings = ?S, index = ?k, leafValue = v \<rparr> \<rparr>)"
    by (simp add: appendLeaf_closed Let_def idx ht sibs)
  show "deltaSiblings (fst (appendLeaf H t v)) = ?S" by (simp add: res)
  show "deltaIndex (fst (appendLeaf H t v)) = ?k" by (simp add: res)
  show "oldRoot (fst (appendLeaf H t v)) = root (lastProof t)" by (simp add: res)
  show "oldValue (fst (appendLeaf H t v)) = zeroDigest" by (simp add: res)
  show "newValue (fst (appendLeaf H t v)) = v" by (simp add: res)
  show "newRoot (fst (appendLeaf H t v)) = root (lastProof (snd (appendLeaf H t v)))"
    by (simp add: res)
  have z: "?k div 2 ^ h = 0" using r by (intro div_pow_in_range) simp_all
  have S': "treeSiblings H ?lv' 0 ?k h = ?S"
    by (rule treeSiblings_cong) (simp add: leavesOf_snoc)
  have "foldPath H (take h (treeSiblings H ?lv' 0 ?k h)) ?k (?lv' ?k) = nodeAt H ?lv' h (?k div 2 ^ h)"
    by (rule foldPath_take_treeSiblings) simp
  then have new_root: "foldPath H ?S ?k v = nodeAt H ?lv' h 0"
    by (simp add: S' z length_treeSiblings leavesOf_snoc)
  have "foldPath H (take h ?S) ?k (?lv ?k) = nodeAt H ?lv h (?k div 2 ^ h)"
    by (rule foldPath_take_treeSiblings) simp
  then have old_root: "foldPath H ?S ?k zeroDigest = nodeAt H ?lv h 0"
    by (simp add: z length_treeSiblings leavesOf_beyond)
  show "appendAgrees H h (vs @ [v]) (snd (appendLeaf H t v))"
    using ht zs by (simp add: res appendAgrees_def new_root S' length_treeSiblings)
  show "verifyDeltaMerkleProof H (fst (appendLeaf H t v))"
    by (simp add: res verifyDeltaMerkleProof_def verifyMerkleProof_def
        computeMerkleRootFromProof_foldPath old_root rt)
qed

lemma appendAgrees_new: "appendAgrees H h [] (newAppendOnlyMerkleTree H h)"
  by (simp add: appendAgrees_def newAppendOnlyMerkleTree_def Let_def computeZeroHashes_nth
      length_computeZeroHashes leavesOf_Nil nodeAt_const)

lemma appendLeaves_Cons:
  "appendLeaves H t (v # vs) =
     (fst (appendLeaf H t v) # fst (appendLeaves H (snd (appendLeaf H t v)) vs),
      snd (appendLeaves H (snd (appendLeaf H t v)) vs))"
  by (simp add: split_beta)

lemma appendLeaves_snoc:
  "appendLeaves H t (vs @ [v]) =
     (fst (appendLeaves H t vs) @ [fst (appendLeaf H (snd (appendLeaves H t vs)) v)],
      snd (appendLeaf H (snd (appendLeaves H t vs)) v))"
  by (induction vs arbitrary: t) (simp_all add: split_beta)

lemma appendLeaves_index:
  "index (lastProof (snd (appendLeaves H t vs))) = index (lastProof t) + int (length vs)"
  by (induction vs arbitrary: t) (simp_all add: split_beta appendLeaf_index)

lemma appendLeaves_agrees:
  "appendAgrees H h vs t \<Longrightarrow> length vs + length ws \<le> 2 ^ h \<Longrightarrow>
   length (fst (appendLeaves H t ws)) = length ws \<and>
   list_all (verifyDeltaMerkleProof H) (fst (appendLeaves H t ws)) \<and>
   list_all (\<lambda>p. oldValue p = zeroDigest) (fst (appendLeaves H t ws)) \<and>
   chained (root (lastProof t)) (fst (appendLeaves H t ws)) \<and>
   appendAgrees H h (vs @ ws) (snd (appendLeaves H t ws)) \<and>
   (ws \<noteq> [] \<longrightarrow> newRoot (last (fst (appendLeaves H t ws))) = root (lastProof (snd (appendLeaves H t ws))))"
proof (induction ws arbitrary: t vs)
  case Nil
  then show ?case by simp
next
  case (Cons w ws)
  let ?p = "fst (appendLeaf H t w)"
  let ?t1 = "snd (appendLeaf H t w)"
  let ?R = "appendLeaves H ?t1 ws"
  have "length vs < 2 ^ h" using Cons.prems(2) by simp
  then have "int (length vs) < int (2 ^ h)" by (simp only: of_nat_less_iff)
  then have r: "int (length vs) < 2 ^ h" by simp
  have old: "oldRoot ?p = root (lastProof t)" and new: "newRoot ?p = root (lastProof ?t1)"
    and ov: "oldValue ?p = zeroDigest" and ver: "verifyDeltaMerkleProof H ?p"
    and inv: "appendAgrees H h (vs @ [w]) ?t1"
    using appendLeaf_agrees[OF Cons.prems(1) r, of w] by simp_all
  have "length (vs @ [w]) + length ws \<le> 2 ^ h"
    using Cons.prems(2) by simp
  with inv have ih: "length (fst ?R) = length ws \<and>
      list_all (verifyDeltaMerkleProof H) (fst ?R) \<and>
      list_all (\<lambda>p. oldValue p = zeroDigest) (fst ?R) \<and>
      chained (root (lastProof ?t1)) (fst ?R) \<and>
      appendAgrees H h ((vs @ [w]) @ ws) (snd ?R) \<and>
      (ws \<noteq> [] \<longrightarrow> newRoot (last (fst ?R)) = root (lastProof (snd ?R)))"
    by (rule Cons.IH)
  have e: "appendLeaves H t (w # ws) = (?p # fst ?R, snd ?R)"
    by (rule appendLeaves_Cons)
  have emp: "(fst ?R = []) = (ws = [])"
    using ih by (metis length_0_conv)
  have R0: "ws = [] \<Longrightarrow> snd ?R = ?t1" by simp
  show ?case
    unfolding e using ih old new ov ver emp R0 by (auto simp del: appendLeaves.simps)
qed

lemma initial_lastProof:
  "lastProof (newAppendOnlyMerkleTree H h) =
     \<lparr> root = zeroAt H h, siblings = map (zeroAt H) [0..<h], index = - 1, leafValue = zeroAt H h \<rparr>"
  by (simp add: newAppendOnlyMerkleTree_def Let_def computeZeroHashes_nth take_computeZeroHashes)

lemma foldPath_minus_one_zero:
  assumes inj: "\<forall>a b c d. H a b = H c d \<longrightarrow> a = c \<and> b = d"
  shows "foldPath H (map (zeroAt H) [a..<a + n]) (- 1) v = zeroAt H (a + n) \<Longrightarrow> v = zeroAt H a"
proof (induction n arbitrary: a v)
  case 0
  then show ?case by simp
next
  case (Suc n)
  have u: "[a..<a + Suc n] = a # [Suc a..<Suc a + n]"
    by (simp add: upt_conv_Cons del: upt_Suc)
  from Suc.prems have "foldPath H (map (zeroAt H) [Suc a..<Suc a + n]) (- 1) (H (zeroAt H a) v)
                         = zeroAt H (Suc a + n)"
    unfolding u by simp
  then have "H (zeroAt H a) v = zeroAt H (Suc a)" by (rule Suc.IH)
  then have "H (zeroAt H a) v = H (zeroAt H a) (zeroAt H a)" by simp
  then show ?case by (rule inj[rule_format, THEN conjunct2])
qed

section \<open>The stand-in hash\<close>

text \<open>The stand-in hash has no collisions and never returns the all-zero digest.\<close>

lemma sampleEncode_inj:
  "sampleEncode a b = sampleEncode c d \<Longrightarrow> a = c \<and> b = d"
proof (induction a arbitrary: c)
  case Nil
  then show ?case by (cases c) simp_all
next
  case (Cons x xs)
  then show ?case by (cases c) auto
qed

lemma sampleHash_inj: "sampleHash a b = sampleHash c d \<Longrightarrow> a = c \<and> b = d"
proof -
  assume "sampleHash a b = sampleHash c d"
  then have "sampleEncode a b = sampleEncode c d" by (simp add: sampleHash_def)
  then show ?thesis by (rule sampleEncode_inj)
qed

lemma sampleHash_nonzero: "sampleHash a b \<noteq> zeroDigest"
  by (simp add: sampleHash_def zeroDigest_def)

section \<open>The claims\<close>

subsection \<open>C1: the append-only tree and the sparse tree reach the same root\<close>

text \<open>
  Claim C1.  For every height \<open>h\<close> and every list \<open>vs\<close> of \<open>2 ^ h\<close> leaf values, appending
  the values in order to a fresh \<^verbatim>\<open>AppendOnlyMerkleTree(h)\<close> ends with the root that a fresh
  \<^verbatim>\<open>ZeroMerkleTree(h)\<close> has after \<^verbatim>\<open>setLeaf(i, vs[i])\<close> for \<open>i = 0, 1, ..., 2 ^ h - 1\<close>
  in order; that root is the \<^verbatim>\<open>newRoot\<close> of the last returned delta proof and the
  \<^verbatim>\<open>root\<close> of the stored \<^verbatim>\<open>lastProof\<close>.  Both roots are the root of the complete tree
  over \<open>vs\<close>.
\<close>

theorem append_root_equals_sparse_root:
  assumes "length vs = 2 ^ h"
  shows "root (lastProof (snd (appendLeaves H (newAppendOnlyMerkleTree H h) vs)))
           = getRoot (snd (setLeaves H (newZeroMerkleTree H h) (zip (map int [0..<length vs]) vs))) \<and>
         newRoot (last (fst (appendLeaves H (newAppendOnlyMerkleTree H h) vs)))
           = root (lastProof (snd (appendLeaves H (newAppendOnlyMerkleTree H h) vs)))"
proof -
  let ?a = "newAppendOnlyMerkleTree H h"
  let ?z = "newZeroMerkleTree H h"
  let ?calls = "zip (map int [0..<length vs]) vs"
  have ne: "vs \<noteq> []" using assms by auto
  have "length [] + length vs \<le> 2 ^ h" using assms by simp
  with appendAgrees_new[of H h]
  have ra: "length (fst (appendLeaves H ?a vs)) = length vs \<and>
       list_all (verifyDeltaMerkleProof H) (fst (appendLeaves H ?a vs)) \<and>
       list_all (\<lambda>p. oldValue p = zeroDigest) (fst (appendLeaves H ?a vs)) \<and>
       chained (root (lastProof ?a)) (fst (appendLeaves H ?a vs)) \<and>
       appendAgrees H h ([] @ vs) (snd (appendLeaves H ?a vs)) \<and>
       (vs \<noteq> [] \<longrightarrow> newRoot (last (fst (appendLeaves H ?a vs))) = root (lastProof (snd (appendLeaves H ?a vs))))"
    by (rule appendLeaves_agrees)
  then have aroot: "root (lastProof (snd (appendLeaves H ?a vs))) = nodeAt H (leavesOf vs) h 0"
    by (simp add: appendAgrees_def)
  have ht: "treeHeight ?z = h" by (simp add: newZeroMerkleTree_def)
  have "\<forall>c \<in> set ?calls. 0 \<le> fst c \<and> fst c < 2 ^ treeHeight ?z"
  proof
    fix c assume mem: "c \<in> set ?calls"
    obtain i w where c: "c = (i, w)" by (cases c)
    from mem have "i \<in> set (map int [0..<length vs])"
      unfolding c by (rule set_zip_leftD)
    then have "fst c \<in> set (map int [0..<length vs])"
      by (simp add: c)
    then obtain n where n: "fst c = int n" "n < length vs" by auto
    then have "int n < int (2 ^ h)" using assms by simp
    then show "0 \<le> fst c \<and> fst c < 2 ^ treeHeight ?z"
      using n ht by simp
  qed
  with storeAgrees_new[of H h]
  have rz: "length (fst (setLeaves H ?z ?calls)) = length ?calls \<and>
       list_all (verifyDeltaMerkleProof H) (fst (setLeaves H ?z ?calls)) \<and>
       chained (getRoot ?z) (fst (setLeaves H ?z ?calls)) \<and>
       treeHeight (snd (setLeaves H ?z ?calls)) = treeHeight ?z \<and>
       storeAgrees H (snd (setLeaves H ?z ?calls)) (applyCalls (\<lambda>_. zeroDigest) ?calls)"
    by (rule setLeaves_agrees)
  then have "storeAgrees H (snd (setLeaves H ?z ?calls)) (leavesOf vs)"
    by (simp add: applyCalls_in_order)
  then have "getRoot (snd (setLeaves H ?z ?calls))
               = nodeAt H (leavesOf vs) (treeHeight (snd (setLeaves H ?z ?calls))) 0"
    by (rule getRoot_agrees)
  with rz ht have zroot: "getRoot (snd (setLeaves H ?z ?calls)) = nodeAt H (leavesOf vs) h 0"
    by simp
  show ?thesis using aroot zroot ra ne by simp
qed

text \<open>
  Witness of C1: the eight leaves of \<^verbatim>\<open>example4\<close> fill a tree of height \<open>3\<close>.
\<close>

theorem append_root_equals_sparse_root_witness:
  "length example4Leaves = 2 ^ 3 \<and>
   root (lastProof (snd (appendLeaves sampleHash (newAppendOnlyMerkleTree sampleHash 3) example4Leaves)))
     = getRoot (snd (setLeaves sampleHash (newZeroMerkleTree sampleHash 3)
         (zip (map int [0..<length example4Leaves]) example4Leaves)))"
proof -
  have h: "length example4Leaves = 2 ^ 3" by (simp add: example4Leaves_def)
  show ?thesis
    by (rule conjI[OF h conjunct1[OF append_root_equals_sparse_root[OF h]]])
qed

subsection \<open>C2: every delta proof of the sparse tree verifies, and the roots chain\<close>



subsection \<open>C3: every delta proof of the append-only tree verifies, and the roots chain\<close>

text \<open>
  Claim C3.  For every height \<open>h\<close> and every list of at most \<open>2 ^ h\<close> values appended to a
  fresh \<^verbatim>\<open>AppendOnlyMerkleTree(h)\<close>, one delta proof is returned per call, every returned
  delta proof passes \<^verbatim>\<open>verifyDeltaMerkleProof\<close>, its \<^verbatim>\<open>oldValue\<close> is the all-zero digest,
  its \<^verbatim>\<open>oldRoot\<close> is the fold of the all-zero digest over its siblings, and for every
  \<open>i > 0\<close> the \<^verbatim>\<open>oldRoot\<close> of the \<open>i\<close>-th proof is the \<^verbatim>\<open>newRoot\<close> of the proof before
  it.
\<close>

theorem appendLeaf_proofs_verify_and_chain:
  assumes "length vs \<le> 2 ^ h"
  shows "(let proofs = fst (appendLeaves H (newAppendOnlyMerkleTree H h) vs)
          in length proofs = length vs \<and>
             (\<forall>p \<in> set proofs.
                verifyDeltaMerkleProof H p \<and> oldValue p = zeroDigest \<and>
                oldRoot p = computeMerkleRootFromProof H (deltaSiblings p) (deltaIndex p) zeroDigest) \<and>
             (\<forall>i. 0 < i \<and> i < length proofs \<longrightarrow> oldRoot (proofs ! i) = newRoot (proofs ! (i - 1))))"
proof -
  let ?t = "newAppendOnlyMerkleTree H h"
  let ?ps = "fst (appendLeaves H ?t vs)"
  have "length [] + length vs \<le> 2 ^ h" using assms by simp
  with appendAgrees_new[of H h]
  have r: "length ?ps = length vs \<and>
       list_all (verifyDeltaMerkleProof H) ?ps \<and>
       list_all (\<lambda>p. oldValue p = zeroDigest) ?ps \<and>
       chained (root (lastProof ?t)) ?ps \<and>
       appendAgrees H h ([] @ vs) (snd (appendLeaves H ?t vs)) \<and>
       (vs \<noteq> [] \<longrightarrow> newRoot (last ?ps) = root (lastProof (snd (appendLeaves H ?t vs))))"
    by (rule appendLeaves_agrees)
  then have "chained (root (lastProof ?t)) ?ps" by simp
  then have ch: "\<And>i. 0 < i \<Longrightarrow> i < length ?ps \<Longrightarrow> oldRoot (?ps ! i) = newRoot (?ps ! (i - 1))"
    by (rule chained_nth)
  have old: "oldRoot p = computeMerkleRootFromProof H (deltaSiblings p) (deltaIndex p) zeroDigest"
    if "verifyDeltaMerkleProof H p" "oldValue p = zeroDigest" for p
    using that by (simp add: verifyDeltaMerkleProof_def verifyMerkleProof_def Let_def)
  from r ch old show ?thesis
    by (simp add: Let_def list_all_iff)
qed

text \<open>
  Witness of C3: the eight leaves of \<^verbatim>\<open>example4\<close> fit a tree of height \<open>3\<close>.
\<close>

theorem appendLeaf_proofs_verify_and_chain_witness:
  "length example4Leaves \<le> 2 ^ 3 \<and>
   length (fst (appendLeaves sampleHash (newAppendOnlyMerkleTree sampleHash 3) example4Leaves)) = 8 \<and>
   list_all (verifyDeltaMerkleProof sampleHash)
     (fst (appendLeaves sampleHash (newAppendOnlyMerkleTree sampleHash 3) example4Leaves)) \<and>
   list_all (\<lambda>p. oldValue p = zeroDigest)
     (fst (appendLeaves sampleHash (newAppendOnlyMerkleTree sampleHash 3) example4Leaves)) \<and>
   oldRoot (fst (appendLeaves sampleHash (newAppendOnlyMerkleTree sampleHash 3) example4Leaves) ! 1)
     = newRoot (fst (appendLeaves sampleHash (newAppendOnlyMerkleTree sampleHash 3) example4Leaves) ! 0)"
proof -
  let ?ps = "fst (appendLeaves sampleHash (newAppendOnlyMerkleTree sampleHash 3) example4Leaves)"
  have h: "length example4Leaves \<le> 2 ^ 3" by (simp add: example4Leaves_def)
  have len: "length example4Leaves = 8" by (simp add: example4Leaves_def)
  note T = appendLeaf_proofs_verify_and_chain[OF h, of sampleHash, unfolded Let_def]
  from T len have l: "length ?ps = 8" by simp
  from T have all: "\<forall>p \<in> set ?ps. verifyDeltaMerkleProof sampleHash p \<and> oldValue p = zeroDigest \<and>
      oldRoot p = computeMerkleRootFromProof sampleHash (deltaSiblings p) (deltaIndex p) zeroDigest"
    by (rule conjunct2[THEN conjunct1])
  then have v: "list_all (verifyDeltaMerkleProof sampleHash) ?ps"
    and z: "list_all (\<lambda>p. oldValue p = zeroDigest) ?ps"
    unfolding list_all_iff by blast+
  from T have "\<forall>i. 0 < i \<and> i < length ?ps \<longrightarrow> oldRoot (?ps ! i) = newRoot (?ps ! (i - 1))"
    by (rule conjunct2[THEN conjunct2])
  then have "0 < (1::nat) \<and> 1 < length ?ps \<longrightarrow> oldRoot (?ps ! 1) = newRoot (?ps ! (1 - 1))"
    by (rule spec)
  with l have c: "oldRoot (?ps ! 1) = newRoot (?ps ! 0)" by simp
  from h l v z c show ?thesis by blast
qed

subsection \<open>C4: the table of zero hashes\<close>

text \<open>
  Claim C4.  For every height \<open>h\<close>, \<^verbatim>\<open>computeZeroHashes(h)\<close> returns a list \<open>Z\<close> of \<open>h + 1\<close>
  entries with \<open>Z[0]\<close> the all-zero digest and \<open>Z[i] = hash(Z[i - 1], Z[i - 1])\<close> for
  \<open>1 \<le> i \<le> h\<close>.  For every \<open>i \<le> h\<close>, \<open>Z[i]\<close> is the root that a fresh
  \<^verbatim>\<open>ZeroMerkleTree(i)\<close> reports, which is \<^verbatim>\<open>computeZeroHashes(i)[i]\<close>, and it is the root of
  the complete tree of height \<open>i\<close> whose leaves are all the all-zero digest.
\<close>

theorem computeZeroHashes_table:
  "length (computeZeroHashes H h) = h + 1 \<and>
   computeZeroHashes H h ! 0 = zeroDigest \<and>
   (\<forall>i. 1 \<le> i \<and> i \<le> h \<longrightarrow>
      computeZeroHashes H h ! i = H (computeZeroHashes H h ! (i - 1)) (computeZeroHashes H h ! (i - 1))) \<and>
   (\<forall>i. i \<le> h \<longrightarrow>
      getRoot (newZeroMerkleTree H i) = computeZeroHashes H i ! i \<and>
      computeZeroHashes H h ! i = getRoot (newZeroMerkleTree H i) \<and>
      computeZeroHashes H h ! i = nodeAt H (\<lambda>_. zeroDigest) i 0)"
proof -
  have step: "computeZeroHashes H h ! i = H (computeZeroHashes H h ! (i - 1)) (computeZeroHashes H h ! (i - 1))"
    if "1 \<le> i" "i \<le> h" for i
  proof -
    from that obtain j where j: "i = Suc j" by (cases i) auto
    with that show ?thesis by (simp add: computeZeroHashes_nth)
  qed
  have fresh: "getRoot (newZeroMerkleTree H i) = zeroAt H i" for i
    by (simp add: getRoot_def newZeroMerkleTree_def get_new)
  have a: "length (computeZeroHashes H h) = h + 1 \<and> computeZeroHashes H h ! 0 = zeroDigest"
    by (simp add: length_computeZeroHashes computeZeroHashes_nth)
  have b: "\<forall>i. 1 \<le> i \<and> i \<le> h \<longrightarrow>
      computeZeroHashes H h ! i = H (computeZeroHashes H h ! (i - 1)) (computeZeroHashes H h ! (i - 1))"
    using step by blast
  have c: "\<forall>i. i \<le> h \<longrightarrow>
      getRoot (newZeroMerkleTree H i) = computeZeroHashes H i ! i \<and>
      computeZeroHashes H h ! i = getRoot (newZeroMerkleTree H i) \<and>
      computeZeroHashes H h ! i = nodeAt H (\<lambda>_. zeroDigest) i 0"
    by (simp add: computeZeroHashes_nth fresh nodeAt_const)
  from a b c show ?thesis by blast
qed

text \<open>Witness of C4: the table for height \<open>2\<close> under the stand-in hash.\<close>

theorem computeZeroHashes_table_witness:
  "length (computeZeroHashes sampleHash 2) = 3 \<and>
   computeZeroHashes sampleHash 2 ! 0 = zeroDigest \<and>
   computeZeroHashes sampleHash 2 ! 1 = sampleHash zeroDigest zeroDigest \<and>
   computeZeroHashes sampleHash 2 ! 2 =
     sampleHash (sampleHash zeroDigest zeroDigest) (sampleHash zeroDigest zeroDigest) \<and>
   getRoot (newZeroMerkleTree sampleHash 2) = computeZeroHashes sampleHash 2 ! 2"
proof -
  let ?Z = "computeZeroHashes sampleHash 2"
  note T = computeZeroHashes_table[of sampleHash 2]
  from T have "length ?Z = 2 + 1" by (rule conjunct1)
  then have len: "length ?Z = 3" by simp
  from T have z0: "?Z ! 0 = zeroDigest" by (rule conjunct2[THEN conjunct1])
  from T have "\<forall>i. 1 \<le> i \<and> i \<le> 2 \<longrightarrow> ?Z ! i = sampleHash (?Z ! (i - 1)) (?Z ! (i - 1))"
    by (rule conjunct2[THEN conjunct2, THEN conjunct1])
  then have step: "1 \<le> i \<and> i \<le> 2 \<longrightarrow> ?Z ! i = sampleHash (?Z ! (i - 1)) (?Z ! (i - 1))" for i
    by (rule spec)
  from T have "\<forall>i. i \<le> 2 \<longrightarrow>
      getRoot (newZeroMerkleTree sampleHash i) = computeZeroHashes sampleHash i ! i \<and>
      ?Z ! i = getRoot (newZeroMerkleTree sampleHash i) \<and>
      ?Z ! i = nodeAt sampleHash (\<lambda>_. zeroDigest) i 0"
    by (rule conjunct2[THEN conjunct2, THEN conjunct2])
  then have "(2::nat) \<le> 2 \<longrightarrow>
      getRoot (newZeroMerkleTree sampleHash 2) = computeZeroHashes sampleHash 2 ! 2 \<and>
      ?Z ! 2 = getRoot (newZeroMerkleTree sampleHash 2) \<and>
      ?Z ! 2 = nodeAt sampleHash (\<lambda>_. zeroDigest) 2 0"
    by (rule spec)
  then have fresh: "getRoot (newZeroMerkleTree sampleHash 2) = ?Z ! 2"
    by (rule mp[THEN conjunct1]) (rule le_refl)
  have z1: "?Z ! 1 = sampleHash zeroDigest zeroDigest"
    using step[of 1] z0 by simp
  have z2: "?Z ! 2 = sampleHash (sampleHash zeroDigest zeroDigest) (sampleHash zeroDigest zeroDigest)"
    using step[of 2] z1 by simp
  from len z0 z1 z2 fresh show ?thesis by blast
qed

subsection \<open>C5: setting a leaf twice to the same value\<close>

text \<open>
  Claim C5.  For every sparse tree, every index in \<open>[0, 2 ^ height)\<close> and every value \<open>v\<close>,
  when \<^verbatim>\<open>setLeaf(index, v)\<close> is called twice in immediate succession the second returned
  delta proof has \<^verbatim>\<open>oldRoot = newRoot\<close> and \<^verbatim>\<open>oldValue = newValue = v\<close>.  The tree before
  the first call is arbitrary.
\<close>

theorem setLeaf_same_value_twice:
  assumes "0 \<le> idx" and "idx < 2 ^ treeHeight t"
  shows "(let (p1, t1) = setLeaf H t idx v;
              (p2, t2) = setLeaf H t1 idx v
          in oldRoot p2 = newRoot p2 \<and> oldValue p2 = v \<and> newValue p2 = v)"
proof -
  let ?t1 = "snd (setLeaf H t idx v)"
  let ?p2 = "fst (setLeaf H ?t1 idx v)"
  have h1: "treeHeight ?t1 = treeHeight t" by (simp add: setLeaf_closed)
  have sib: "storeSiblings (get (nodeStore ?t1)) (treeHeight t) idx
               = storeSiblings (get (nodeStore t)) (treeHeight t) idx"
    by (rule setLeaf_siblings_after)
  have "oldRoot ?p2 = get (nodeStore ?t1) 0 0" by (simp add: setLeaf_closed)
  also have "\<dots> = foldPath H (storeSiblings (get (nodeStore t)) (treeHeight t) idx) idx v"
    by (simp add: setLeaf_get)
  also have "\<dots> = newRoot ?p2"
    by (simp add: setLeaf_closed[of H ?t1] h1 sib)
  finally have a: "oldRoot ?p2 = newRoot ?p2" .
  have "oldValue ?p2 = get (nodeStore ?t1) (treeHeight t) idx"
    by (simp add: setLeaf_closed[of H ?t1] h1)
  also have "\<dots> = v"
  proof (cases "treeHeight t")
    case 0
    with assms have "idx = 0" by simp
    with 0 show ?thesis by (simp add: setLeaf_get)
  next
    case (Suc n)
    then show ?thesis by (simp add: setLeaf_get)
  qed
  finally have b: "oldValue ?p2 = v" .
  have c: "newValue ?p2 = v" by (simp add: setLeaf_closed[of H ?t1])
  show ?thesis using a b c by (simp add: split_beta)
qed

text \<open>Witness of C5: index \<open>1\<close> of a fresh tree of height \<open>1\<close>.\<close>

theorem setLeaf_same_value_twice_witness:
  "(0::int) \<le> 1 \<and> (1::int) < 2 ^ treeHeight (newZeroMerkleTree sampleHash 1) \<and>
   (let (p1, t1) = setLeaf sampleHash (newZeroMerkleTree sampleHash 1) 1 example7Leaf;
        (p2, t2) = setLeaf sampleHash t1 1 example7Leaf
    in oldRoot p2 = newRoot p2 \<and> oldValue p2 = example7Leaf \<and> newValue p2 = example7Leaf)"
proof -
  have a: "(0::int) \<le> 1" by simp
  have b: "(1::int) < 2 ^ treeHeight (newZeroMerkleTree sampleHash 1)"
    by (simp add: newZeroMerkleTree_def)
  from setLeaf_same_value_twice[OF a b, of sampleHash example7Leaf] a b show ?thesis
    by blast
qed

subsection \<open>C6: a delta proof verifies exactly when its old and new proofs verify\<close>

text \<open>
  Claim C6.  For every delta proof \<open>d\<close>, \<^verbatim>\<open>verifyDeltaMerkleProof(d)\<close> is true exactly when
  both the proof \<^verbatim>\<open>{root: d.oldRoot, siblings: d.siblings, index: d.index, value: d.oldValue}\<close>
  and the proof \<^verbatim>\<open>{root: d.newRoot, siblings: d.siblings, index: d.index, value: d.newValue}\<close>
  pass \<^verbatim>\<open>verifyMerkleProof\<close>, that is, exactly when each root equals
  \<^verbatim>\<open>computeMerkleRootFromProof\<close> over the shared siblings and index.  The result is a
  boolean on every input: the source has no \<^verbatim>\<open>throw\<close> on this path, and \<open>False\<close> is an
  ordinary result.
\<close>

theorem verifyDeltaMerkleProof_iff:
  "verifyDeltaMerkleProof H d =
     (verifyMerkleProof H \<lparr> root = oldRoot d, siblings = deltaSiblings d, index = deltaIndex d,
                             leafValue = oldValue d \<rparr> \<and>
      verifyMerkleProof H \<lparr> root = newRoot d, siblings = deltaSiblings d, index = deltaIndex d,
                             leafValue = newValue d \<rparr>) \<and>
   verifyDeltaMerkleProof H d =
     (oldRoot d = computeMerkleRootFromProof H (deltaSiblings d) (deltaIndex d) (oldValue d) \<and>
      newRoot d = computeMerkleRootFromProof H (deltaSiblings d) (deltaIndex d) (newValue d))"
  by (simp add: verifyDeltaMerkleProof_def verifyMerkleProof_def Let_def)

text \<open>
  Witness of C6: a delta proof of a tree of height \<open>0\<close> that verifies, and the same proof
  with a wrong old root, for which the verifier returns \<open>False\<close>.
\<close>

theorem verifyDeltaMerkleProof_iff_witness:
  "verifyDeltaMerkleProof sampleHash
     \<lparr> deltaIndex = 0, deltaSiblings = [], oldRoot = zeroDigest, oldValue = zeroDigest,
       newRoot = example7Leaf, newValue = example7Leaf \<rparr> \<and>
   \<not> verifyDeltaMerkleProof sampleHash
     \<lparr> deltaIndex = 0, deltaSiblings = [], oldRoot = example7Leaf, oldValue = zeroDigest,
       newRoot = example7Leaf, newValue = example7Leaf \<rparr>"
  using verifyDeltaMerkleProof_iff[of sampleHash
     "\<lparr> deltaIndex = 0, deltaSiblings = [], oldRoot = zeroDigest, oldValue = zeroDigest,
        newRoot = example7Leaf, newValue = example7Leaf \<rparr>"]
    verifyDeltaMerkleProof_iff[of sampleHash
     "\<lparr> deltaIndex = 0, deltaSiblings = [], oldRoot = example7Leaf, oldValue = zeroDigest,
        newRoot = example7Leaf, newValue = example7Leaf \<rparr>"]
  by (simp add: verifyMerkleProof_def computeMerkleRootFromProof_foldPath example7Leaf_def
      zeroDigest_def)

subsection \<open>C7: contract violations are not detected\<close>

text \<open>
  Claim C7 says that on a contract violation (a \<^verbatim>\<open>setLeaf\<close> index outside
  \<open>[0, 2 ^ height)\<close>, a non-sequential append, a proof whose siblings array has the wrong
  length) the operation fails loudly instead of returning normally with a silently wrong
  root or verification result.  The source has no check and no \<^verbatim>\<open>throw\<close> in any of these
  operations, so every operation of the model returns a result on every input, and the
  claim fails.  \<^verbatim>\<open>appendLeaf\<close> takes no index; the append that a tree cannot hold is the
  one after its \<open>2 ^ height\<close> leaves are used up.  In the counterexample
  below, on a fresh sparse tree of height \<open>1\<close>, \<^verbatim>\<open>setLeaf(2, v)\<close> returns a delta proof and
  overwrites the root with \<open>hash(v, Z[0])\<close> although both leaves \<open>(1, 0)\<close> and \<open>(1, 1)\<close> are
  still empty, so the stored root is no longer the hash of its two children; on a fresh
  append-only tree of height \<open>0\<close> a second \<^verbatim>\<open>appendLeaf\<close> returns a delta proof for index
  \<open>1\<close> that does not verify; and \<^verbatim>\<open>verifyMerkleProof\<close> accepts a proof with an empty
  siblings array and index \<open>5\<close>, whatever the height of the tree it is meant for.
\<close>

theorem contract_violation_counterexample:
  "fst (setLeaf sampleHash (newZeroMerkleTree sampleHash 1) 2 example7Leaf) =
     \<lparr> deltaIndex = 2, deltaSiblings = [zeroDigest], oldRoot = sampleHash zeroDigest zeroDigest,
       oldValue = zeroDigest, newRoot = sampleHash example7Leaf zeroDigest, newValue = example7Leaf \<rparr> \<and>
   getRoot (snd (setLeaf sampleHash (newZeroMerkleTree sampleHash 1) 2 example7Leaf))
     = sampleHash example7Leaf zeroDigest \<and>
   get (nodeStore (snd (setLeaf sampleHash (newZeroMerkleTree sampleHash 1) 2 example7Leaf))) 1 0 = zeroDigest \<and>
   get (nodeStore (snd (setLeaf sampleHash (newZeroMerkleTree sampleHash 1) 2 example7Leaf))) 1 1 = zeroDigest \<and>
   sampleHash example7Leaf zeroDigest \<noteq> sampleHash zeroDigest zeroDigest \<and>
   map deltaIndex (fst (appendLeaves sampleHash (newAppendOnlyMerkleTree sampleHash 0) [example7Leaf, example7Leaf]))
     = [0, 1] \<and>
   map (verifyDeltaMerkleProof sampleHash)
     (fst (appendLeaves sampleHash (newAppendOnlyMerkleTree sampleHash 0) [example7Leaf, example7Leaf]))
     = [True, False] \<and>
   verifyMerkleProof sampleHash
     \<lparr> root = example7Leaf, siblings = [], index = 5, leafValue = example7Leaf \<rparr>"
  by code_simp

text \<open>
  Claim C7 as amended.  None of the operations validates its input, and each returns
  normally on every input.  For any tree and any integer index, \<^verbatim>\<open>setLeaf(index, value)\<close>
  returns a delta proof for that index with \<open>height\<close> siblings whose \<^verbatim>\<open>newRoot\<close> is
  \<^verbatim>\<open>computeMerkleRootFromProof(siblings, index, value)\<close>, and stores that \<^verbatim>\<open>newRoot\<close> as the
  root of the tree.  For any append-only tree, \<^verbatim>\<open>appendLeaf(value)\<close> returns a delta proof
  for the index \<^verbatim>\<open>lastProof.index + 1\<close> with \<open>height\<close> siblings whose \<^verbatim>\<open>newRoot\<close> is the fold
  of the value over these siblings, and stores the matching \<^verbatim>\<open>lastProof\<close>.  A proof with a
  siblings array of any length and any index verifies exactly against the fold of its
  value over that array.
\<close>

theorem operations_do_not_validate:
  "deltaIndex (fst (setLeaf H t idx v)) = idx \<and>
   length (deltaSiblings (fst (setLeaf H t idx v))) = treeHeight t \<and>
   newRoot (fst (setLeaf H t idx v)) =
     computeMerkleRootFromProof H (deltaSiblings (fst (setLeaf H t idx v))) idx v \<and>
   getRoot (snd (setLeaf H t idx v)) = newRoot (fst (setLeaf H t idx v)) \<and>
   deltaIndex (fst (appendLeaf H a v)) = index (lastProof a) + 1 \<and>
   length (deltaSiblings (fst (appendLeaf H a v))) = appendHeight a \<and>
   newRoot (fst (appendLeaf H a v)) =
     computeMerkleRootFromProof H (deltaSiblings (fst (appendLeaf H a v))) (index (lastProof a) + 1) v \<and>
   lastProof (snd (appendLeaf H a v)) =
     \<lparr> root = newRoot (fst (appendLeaf H a v)), siblings = deltaSiblings (fst (appendLeaf H a v)),
       index = index (lastProof a) + 1, leafValue = v \<rparr> \<and>
   verifyMerkleProof H \<lparr> root = computeMerkleRootFromProof H sibs idx v, siblings = sibs,
                          index = idx, leafValue = v \<rparr>"
  by (simp add: setLeaf_closed appendLeaf_closed Let_def length_storeSiblings getRoot_def
      get_setNode computeMerkleRootFromProof_foldPath verifyMerkleProof_def)

text \<open>Witness of the amended C7: the out-of-range call of the counterexample.\<close>

theorem operations_do_not_validate_witness:
  "deltaIndex (fst (setLeaf sampleHash (newZeroMerkleTree sampleHash 1) 2 example7Leaf)) = 2 \<and>
   length (deltaSiblings (fst (setLeaf sampleHash (newZeroMerkleTree sampleHash 1) 2 example7Leaf))) = 1 \<and>
   getRoot (snd (setLeaf sampleHash (newZeroMerkleTree sampleHash 1) 2 example7Leaf))
     = newRoot (fst (setLeaf sampleHash (newZeroMerkleTree sampleHash 1) 2 example7Leaf))"
  using operations_do_not_validate[of sampleHash "newZeroMerkleTree sampleHash 1" 2 example7Leaf]
  by (simp add: newZeroMerkleTree_def)

subsection \<open>C8: what \<^verbatim>\<open>setLeaf\<close> writes\<close>



subsection \<open>C9: \<^verbatim>\<open>computeMerkleRootFromProof\<close> is total\<close>

text \<open>
  Claim C9.  \<^verbatim>\<open>computeMerkleRootFromProof(siblings, index, value)\<close> is a pure, total
  function: for every list of siblings and every index it returns a node value, which
  depends on its three arguments only.  The loop of the source, \<open>merkleRootLoop\<close>, is
  accepted with its termination proof and reads \<^verbatim>\<open>siblings[i]\<close> under the guard
  \<^verbatim>\<open>i < siblings.length\<close> only, and the source has no \<^verbatim>\<open>throw\<close> on this path.  The theorem
  gives the result on every input: it is the structural left/right fold over the list,
  the value itself for an empty list and one more application of the hash for every
  further sibling.  This holds for lists of any length and for negative indices as well,
  so in particular for lists no longer than the height and indices from \<open>0\<close>.
\<close>

theorem computeMerkleRootFromProof_total:
  "computeMerkleRootFromProof H sibs idx v = foldPath H sibs idx v \<and>
   computeMerkleRootFromProof H [] idx v = v \<and>
   computeMerkleRootFromProof H (sibs @ [s]) idx v =
     (if (idx div 2 ^ length sibs) smod 2 = 0
      then H (computeMerkleRootFromProof H sibs idx v) s
      else H s (computeMerkleRootFromProof H sibs idx v))"
proof -
  have snoc: "foldPath H (sibs @ [s]) idx v =
     (if even (idx div 2 ^ length sibs) then H (foldPath H sibs idx v) s else H s (foldPath H sibs idx v))"
    for sibs idx v
    by (induction sibs arbitrary: idx v) (simp_all add: div_pow_Suc')
  show ?thesis
    by (simp add: computeMerkleRootFromProof_foldPath snoc smod_two_iff_even)
qed

text \<open>Witness of C9: the fold of one sibling at an odd index, and of none.\<close>

theorem computeMerkleRootFromProof_total_witness:
  "computeMerkleRootFromProof sampleHash [zeroDigest] 1 example7Leaf = sampleHash zeroDigest example7Leaf \<and>
   computeMerkleRootFromProof sampleHash [] 1 example7Leaf = example7Leaf"
  using computeMerkleRootFromProof_total[of sampleHash "[]" 1 example7Leaf zeroDigest]
  by (simp add: smod_two_iff_even)

subsection \<open>C10: the stored last proof\<close>

text \<open>
  Claim C10 says that after every \<^verbatim>\<open>appendLeaf\<close> the stored \<^verbatim>\<open>lastProof\<close> verifies, with
  the index, root and value of the last append, and that before any append the stored
  proof does not verify.  The last part fails for height \<open>0\<close>: the initial proof has no
  siblings and its root and its value are both \<open>Z[0]\<close>, so it verifies.
\<close>

theorem initial_lastProof_counterexample:
  "index (lastProof (newAppendOnlyMerkleTree sampleHash 0)) = - 1 \<and>
   verifyMerkleProof sampleHash (lastProof (newAppendOnlyMerkleTree sampleHash 0))"
  by code_simp

text \<open>
  Claim C10 as amended.  For every height \<open>h\<close> and every non-empty list of \<open>n\<close> appended
  values (of any length, also beyond the capacity of the tree), after the \<open>n\<close>-th
  \<^verbatim>\<open>appendLeaf\<close> on a fresh \<^verbatim>\<open>AppendOnlyMerkleTree(h)\<close> the stored \<^verbatim>\<open>lastProof\<close> passes
  \<^verbatim>\<open>verifyMerkleProof\<close>, its index is \<open>n - 1\<close>, its root is the \<^verbatim>\<open>newRoot\<close> of the \<open>n\<close>-th
  returned delta proof and its value is the \<open>n\<close>-th appended value.  Before any append the
  stored proof of a tree of height \<open>0\<close> verifies; for a height \<open>h > 0\<close> it does not verify
  when the hash has no collisions and never returns the all-zero digest.
\<close>

theorem lastProof_after_appends:
  assumes "vs \<noteq> []"
  shows "(let (proofs, t) = appendLeaves H (newAppendOnlyMerkleTree H h) vs
          in verifyMerkleProof H (lastProof t) \<and>
             index (lastProof t) = int (length vs) - 1 \<and>
             root (lastProof t) = newRoot (last proofs) \<and>
             leafValue (lastProof t) = last vs) \<and>
         verifyMerkleProof H (lastProof (newAppendOnlyMerkleTree H 0)) \<and>
         ((\<forall>a b c d. H a b = H c d \<longrightarrow> a = c \<and> b = d) \<and> (\<forall>a b. H a b \<noteq> zeroDigest) \<and> 0 < h
            \<longrightarrow> \<not> verifyMerkleProof H (lastProof (newAppendOnlyMerkleTree H h)))"
proof -
  from assms obtain ws w where vs: "vs = ws @ [w]" by (cases vs rule: rev_cases) auto
  let ?t0 = "snd (appendLeaves H (newAppendOnlyMerkleTree H h) ws)"
  let ?R = "appendLeaves H (newAppendOnlyMerkleTree H h) vs"
  have R: "?R = (fst (appendLeaves H (newAppendOnlyMerkleTree H h) ws) @ [fst (appendLeaf H ?t0 w)],
                 snd (appendLeaf H ?t0 w))"
    unfolding vs by (rule appendLeaves_snoc)
  have a: "verifyMerkleProof H (lastProof (snd ?R))"
    by (simp add: R appendLeaf_closed Let_def verifyMerkleProof_def computeMerkleRootFromProof_foldPath)
  have b: "index (lastProof (snd ?R)) = int (length vs) - 1"
    by (simp add: appendLeaves_index initial_lastProof)
  have c: "root (lastProof (snd ?R)) = newRoot (last (fst ?R))"
    by (simp add: R appendLeaf_closed Let_def)
  have "leafValue (lastProof (snd ?R)) = w"
    by (simp add: R appendLeaf_closed Let_def)
  then have d: "leafValue (lastProof (snd ?R)) = last vs"
    by (simp add: vs)
  have e: "verifyMerkleProof H (lastProof (newAppendOnlyMerkleTree H 0))"
    by (simp add: initial_lastProof verifyMerkleProof_def computeMerkleRootFromProof_foldPath)
  have f: "\<not> verifyMerkleProof H (lastProof (newAppendOnlyMerkleTree H h))"
    if inj: "\<forall>a b c d. H a b = H c d \<longrightarrow> a = c \<and> b = d" and nz: "\<forall>a b. H a b \<noteq> zeroDigest" and h: "0 < h"
  proof
    assume "verifyMerkleProof H (lastProof (newAppendOnlyMerkleTree H h))"
    then have "foldPath H (map (zeroAt H) [0..<0 + h]) (- 1) (zeroAt H h) = zeroAt H (0 + h)"
      by (simp add: initial_lastProof verifyMerkleProof_def computeMerkleRootFromProof_foldPath)
    then have "zeroAt H h = zeroAt H 0"
      by (rule foldPath_minus_one_zero[OF inj])
    moreover from h obtain n where "h = Suc n" by (cases h) auto
    ultimately show False using nz by simp
  qed
  have first: "(let (proofs, t) = ?R
          in verifyMerkleProof H (lastProof t) \<and>
             index (lastProof t) = int (length vs) - 1 \<and>
             root (lastProof t) = newRoot (last proofs) \<and>
             leafValue (lastProof t) = last vs)"
    using a b c d by (simp only: split_beta Let_def)
  have third: "(\<forall>a b c d. H a b = H c d \<longrightarrow> a = c \<and> b = d) \<and> (\<forall>a b. H a b \<noteq> zeroDigest) \<and> 0 < h
            \<longrightarrow> \<not> verifyMerkleProof H (lastProof (newAppendOnlyMerkleTree H h))"
  proof (rule impI)
    assume A: "(\<forall>a b c d. H a b = H c d \<longrightarrow> a = c \<and> b = d) \<and> (\<forall>a b. H a b \<noteq> zeroDigest) \<and> 0 < h"
    show "\<not> verifyMerkleProof H (lastProof (newAppendOnlyMerkleTree H h))"
      by (rule f[OF conjunct1[OF A] conjunct1[OF conjunct2[OF A]] conjunct2[OF conjunct2[OF A]]])
  qed
  show ?thesis by (rule conjI[OF first conjI[OF e third]])
qed

text \<open>
  Witness of the amended C10: one append to a tree of height \<open>2\<close> under the stand-in hash,
  which has no collisions and never returns the all-zero digest.
\<close>

theorem lastProof_after_appends_witness:
  "[example7Leaf] \<noteq> [] \<and>
   verifyMerkleProof sampleHash (lastProof (snd (appendLeaves sampleHash (newAppendOnlyMerkleTree sampleHash 2) [example7Leaf]))) \<and>
   index (lastProof (snd (appendLeaves sampleHash (newAppendOnlyMerkleTree sampleHash 2) [example7Leaf]))) = 0 \<and>
   leafValue (lastProof (snd (appendLeaves sampleHash (newAppendOnlyMerkleTree sampleHash 2) [example7Leaf]))) = example7Leaf \<and>
   \<not> verifyMerkleProof sampleHash (lastProof (newAppendOnlyMerkleTree sampleHash 2))"
proof -
  let ?R = "appendLeaves sampleHash (newAppendOnlyMerkleTree sampleHash 2) [example7Leaf]"
  have a: "[example7Leaf] \<noteq> []" by simp
  have inj: "\<forall>a b c d. sampleHash a b = sampleHash c d \<longrightarrow> a = c \<and> b = d"
    by (intro allI impI) (rule sampleHash_inj)
  have nz: "\<forall>a b. sampleHash a b \<noteq> zeroDigest"
    by (intro allI) (rule sampleHash_nonzero)
  have hyp: "(\<forall>a b c d. sampleHash a b = sampleHash c d \<longrightarrow> a = c \<and> b = d) \<and>
             (\<forall>a b. sampleHash a b \<noteq> zeroDigest) \<and> (0::nat) < 2"
    by (intro conjI inj nz) simp
  note T = lastProof_after_appends[OF a, of sampleHash 2]
  have neg: "\<not> verifyMerkleProof sampleHash (lastProof (newAppendOnlyMerkleTree sampleHash 2))"
    by (rule mp[OF conjunct2[OF conjunct2[OF T]] hyp])
  have "verifyMerkleProof sampleHash (lastProof (snd ?R)) \<and>
        index (lastProof (snd ?R)) = int (length [example7Leaf]) - 1 \<and>
        root (lastProof (snd ?R)) = newRoot (last (fst ?R)) \<and>
        leafValue (lastProof (snd ?R)) = last [example7Leaf]"
    using conjunct1[OF T] by (simp only: split_beta Let_def)
  then have pos: "verifyMerkleProof sampleHash (lastProof (snd ?R)) \<and>
        index (lastProof (snd ?R)) = 0 \<and> leafValue (lastProof (snd ?R)) = example7Leaf"
    by simp
  from a pos neg show ?thesis by blast
qed

end
